theory Spec2Isabelle
  imports Main "HOL-Library.Log_Nat"
begin

section \<open>Backfill of a commit history: a model of \<open>backfill_history.py\<close>\<close>

text \<open>
  The program is a Python script. Its own functions (\<open>run_git\<close>, \<open>is_git_repo\<close>,
  \<open>init_repo\<close>, \<open>commits_for_day\<close>, \<open>make_commit\<close>, \<open>main\<close>) are translated one by
  one. What they call in the Python runtime (floats, \<open>datetime\<close>, \<open>timedelta\<close>,
  \<open>strftime\<close>, \<open>str\<close>) is modelled after CPython: integers are unbounded (\<open>int\<close>), a
  float is an IEEE 754 binary64 number, and the date arithmetic follows the C module
  \<open>_datetime\<close>. Exceptions are values of \<open>py_error\<close>.
\<close>

subsection \<open>Exceptions\<close>

datatype py_error = ValueError | OverflowError | ZeroDivisionError

definition bind_res :: "py_error + 'a \<Rightarrow> ('a \<Rightarrow> py_error + 'b) \<Rightarrow> py_error + 'b" where
  "bind_res r f = (case r of Inl e \<Rightarrow> Inl e | Inr x \<Rightarrow> f x)"

subsection \<open>Floats: IEEE 754 binary64, round to nearest, ties to even\<close>

text \<open>
  A finite float is the rational number it denotes (the two zeros are not told apart:
  no operation of the program depends on the sign of a zero). \<open>fl\<close> rounds a rational
  to the nearest number with a 53-bit significand and an exponent not below the
  subnormal range; \<open>ilog2 x\<close> is the exponent \<open>e\<close> with \<open>2^e \<le> |x| < 2^(e+1)\<close>;
  \<open>fround\<close> adds the overflow to an infinity (a rounded value of \<open>2^1024\<close> or more).
\<close>

datatype pyfloat = FFin rat | FInf bool | FNaN

definition pow2 :: "int \<Rightarrow> rat" where
  "pow2 k = (if 0 \<le> k then 2 ^ nat k else 1 / 2 ^ nat (- k))"

definition round_half_even :: "rat \<Rightarrow> int" where
  "round_half_even y =
     (let f = \<lfloor>y\<rfloor>; r = y - of_int f
      in if r < 1 / 2 then f else if 1 / 2 < r then f + 1 else if even f then f else f + 1)"

definition ilog2 :: "rat \<Rightarrow> int" where
  "ilog2 x =
     (let (n, d) = quotient_of \<bar>x\<bar>; k = bitlen n - bitlen d
      in if pow2 k \<le> \<bar>x\<bar> then k else k - 1)"

definition fl :: "rat \<Rightarrow> rat" where
  "fl x =
     (if x = 0 then 0
      else let q = max (ilog2 x) (- 1022) - 52
           in of_int (round_half_even (x / pow2 q)) * pow2 q)"

definition fround :: "rat \<Rightarrow> pyfloat" where
  "fround x = (let v = fl x in if 1024 \<le> ilog2 v then FInf (v < 0) else FFin v)"

text \<open>\<open>float(n)\<close> for an integer: correctly rounded, OverflowError when too large.\<close>

definition float_of_int :: "int \<Rightarrow> py_error + pyfloat" where
  "float_of_int n = (case fround (of_int n) of FFin v \<Rightarrow> Inr (FFin v) | _ \<Rightarrow> Inl OverflowError)"

text \<open>\<open>a / b\<close> on two integers: the correctly rounded quotient.\<close>

definition int_truediv :: "int \<Rightarrow> int \<Rightarrow> py_error + pyfloat" where
  "int_truediv a b =
     (if b = 0 then Inl ZeroDivisionError
      else case fround (of_int a / of_int b) of FFin v \<Rightarrow> Inr (FFin v) | _ \<Rightarrow> Inl OverflowError)"

fun fmul :: "pyfloat \<Rightarrow> pyfloat \<Rightarrow> pyfloat" where
  "fmul (FFin a) (FFin b) = fround (a * b)"
| "fmul FNaN _ = FNaN"
| "fmul _ FNaN = FNaN"
| "fmul (FInf s) (FInf t) = FInf (s \<noteq> t)"
| "fmul (FInf s) (FFin b) = (if b = 0 then FNaN else FInf (s \<noteq> (b < 0)))"
| "fmul (FFin a) (FInf t) = (if a = 0 then FNaN else FInf ((a < 0) \<noteq> t))"

fun fdiv :: "pyfloat \<Rightarrow> pyfloat \<Rightarrow> py_error + pyfloat" where
  "fdiv (FFin a) (FFin b) = (if b = 0 then Inl ZeroDivisionError else Inr (fround (a / b)))"
| "fdiv FNaN _ = Inr FNaN"
| "fdiv _ FNaN = Inr FNaN"
| "fdiv (FInf s) (FInf t) = Inr FNaN"
| "fdiv (FInf s) (FFin b) = (if b = 0 then Inl ZeroDivisionError else Inr (FInf (s \<noteq> (b < 0))))"
| "fdiv (FFin a) (FInf t) = Inr (FFin 0)"

text \<open>\<open>x / n\<close> and \<open>x * n\<close> for a float \<open>x\<close> and an integer \<open>n\<close>: \<open>n\<close> is converted first.\<close>

definition float_div_int :: "pyfloat \<Rightarrow> int \<Rightarrow> py_error + pyfloat" where
  "float_div_int x n = bind_res (float_of_int n) (\<lambda>b. fdiv x b)"

definition float_mul_int :: "pyfloat \<Rightarrow> int \<Rightarrow> py_error + pyfloat" where
  "float_mul_int x n = bind_res (float_of_int n) (\<lambda>b. Inr (fmul x b))"

subsection \<open>Calendar arithmetic\<close>

definition MINYEAR :: int where "MINYEAR = 1"
definition MAXYEAR :: int where "MAXYEAR = 9999"
definition MAXORDINAL :: int where "MAXORDINAL = 3652059"

record date =
  year :: int
  month :: int
  day :: int

record datetime = date +
  hour :: int
  minute :: int
  second :: int
  microsecond :: int

record timedelta =
  td_days :: int
  td_seconds :: int
  td_microseconds :: int

definition is_leap :: "int \<Rightarrow> bool" where
  "is_leap y = (y mod 4 = 0 \<and> (y mod 100 \<noteq> 0 \<or> y mod 400 = 0))"

definition days_in_month_tab :: "int list" where
  "days_in_month_tab = [0, 31, 28, 31, 30, 31, 30, 31, 31, 30, 31, 30, 31]"

definition days_before_month_tab :: "int list" where
  "days_before_month_tab = [0, 0, 31, 59, 90, 120, 151, 181, 212, 243, 273, 304, 334]"

text \<open>The month is within 1..12 wherever the tables are read (the source asserts it).\<close>

definition days_in_month :: "int \<Rightarrow> int \<Rightarrow> int" where
  "days_in_month y m = (if m = 2 \<and> is_leap y then 29 else days_in_month_tab ! nat m)"

definition days_before_month :: "int \<Rightarrow> int \<Rightarrow> int" where
  "days_before_month y m =
     days_before_month_tab ! nat m + (if 2 < m \<and> is_leap y then 1 else 0)"

definition days_before_year :: "int \<Rightarrow> int" where
  "days_before_year y0 =
     (let y = y0 - 1 in y * 365 + y div 4 - y div 100 + y div 400)"

definition ymd_to_ord :: "int \<Rightarrow> int \<Rightarrow> int \<Rightarrow> int" where
  "ymd_to_ord y m d = days_before_year y + days_before_month y m + d"

definition ord_to_ymd :: "int \<Rightarrow> int \<times> int \<times> int" where
  "ord_to_ymd ordinal0 =
     (let ordinal = ordinal0 - 1;
          n400 = ordinal div 146097; n = ordinal mod 146097;
          y0 = n400 * 400 + 1;
          n100 = n div 36524; n = n mod 36524;
          n4 = n div 1461; n = n mod 1461;
          n1 = n div 365; n = n mod 365;
          y = y0 + n100 * 100 + n4 * 4 + n1
      in if n1 = 4 \<or> n100 = 4 then (y - 1, 12, 31)
         else
           let leapyear = (n1 = 3 \<and> (n4 \<noteq> 24 \<or> n100 = 3));
               m = (n + 50) div 32;
               preceding = days_before_month_tab ! nat m + (if 2 < m \<and> leapyear then 1 else 0)
           in if n < preceding
              then let m' = m - 1; preceding' = preceding - days_in_month y m'
                   in (y, m', n - preceding' + 1)
              else (y, m, n - preceding + 1))"

text \<open>
  \<open>normalize_y_m_d\<close>: a day that left its month by one is moved by hand, any other
  through the ordinal; a year outside MINYEAR..MAXYEAR is an OverflowError.
\<close>

definition normalize_y_m_d :: "int \<Rightarrow> int \<Rightarrow> int \<Rightarrow> py_error + int \<times> int \<times> int" where
  "normalize_y_m_d y m d =
     (let dim = days_in_month y m in
      if d < 1 \<or> dim < d then
        if d = 0 then
          (let (y', m', d') =
                 (if 0 < m - 1 then (y, m - 1, days_in_month y (m - 1)) else (y - 1, 12, 31))
           in if MINYEAR \<le> y' \<and> y' \<le> MAXYEAR then Inr (y', m', d') else Inl OverflowError)
        else if d = dim + 1 then
          (let (y', m') = (if 12 < m + 1 then (y + 1, 1) else (y, m + 1))
           in if MINYEAR \<le> y' \<and> y' \<le> MAXYEAR then Inr (y', m', 1) else Inl OverflowError)
        else
          (let ordinal = ymd_to_ord y m 1 + d - 1
           in if ordinal < 1 \<or> MAXORDINAL < ordinal then Inl OverflowError
              else Inr (ord_to_ymd ordinal))
      else if MINYEAR \<le> y \<and> y \<le> MAXYEAR then Inr (y, m, d) else Inl OverflowError)"

text \<open>The dates a \<open>date\<close> or \<open>datetime\<close> object can hold: what its constructor accepts.\<close>

definition valid_date :: "'a date_scheme \<Rightarrow> bool" where
  "valid_date d =
     (MINYEAR \<le> year d \<and> year d \<le> MAXYEAR \<and> 1 \<le> month d \<and> month d \<le> 12
      \<and> 1 \<le> day d \<and> day d \<le> days_in_month (year d) (month d))"

text \<open>\<open>datetime(y, 1, 1).date()\<close>: the constructor refuses a year outside 1..9999.\<close>

definition new_year_date :: "int \<Rightarrow> py_error + date" where
  "new_year_date y =
     (if y < MINYEAR \<or> MAXYEAR < y then Inl ValueError
      else Inr \<lparr>year = y, month = 1, day = 1\<rparr>)"

text \<open>\<open>(a - b).days\<close> for two dates.\<close>

definition date_diff_days :: "date \<Rightarrow> date \<Rightarrow> int" where
  "date_diff_days a b =
     ymd_to_ord (year a) (month a) (day a) - ymd_to_ord (year b) (month b) (day b)"

text \<open>\<open>d + timedelta(days=k)\<close> for a date.\<close>

definition date_add_days :: "date \<Rightarrow> int \<Rightarrow> py_error + date" where
  "date_add_days d k =
     bind_res (normalize_y_m_d (year d) (month d) (day d + k))
       (\<lambda>(y, m, d'). Inr \<lparr>year = y, month = m, day = d'\<rparr>)"

text \<open>\<open>datetime.combine(d, datetime.min.time())\<close>: midnight of the date.\<close>

definition combine_midnight :: "date \<Rightarrow> datetime" where
  "combine_midnight d =
     \<lparr>year = year d, month = month d, day = day d,
      hour = 0, minute = 0, second = 0, microsecond = 0\<rparr>"

subsection \<open>Time deltas\<close>

text \<open>\<open>microseconds_to_delta\<close>: a count of microseconds as days, seconds, microseconds.\<close>

definition microseconds_to_delta :: "int \<Rightarrow> py_error + timedelta" where
  "microseconds_to_delta us =
     (let s = us div 1000000; u = us mod 1000000;
          d = s div 86400; s' = s mod 86400
      in if d < - 999999999 \<or> 999999999 < d then Inl OverflowError
         else Inr \<lparr>td_days = d, td_seconds = s', td_microseconds = u\<rparr>)"

definition delta_to_microseconds :: "timedelta \<Rightarrow> int" where
  "delta_to_microseconds t =
     (td_days t * 86400 + td_seconds t) * 1000000 + td_microseconds t"

text \<open>\<open>t.total_seconds()\<close>: the microseconds divided by \<open>10**6\<close>, as a float.\<close>

definition total_seconds :: "timedelta \<Rightarrow> py_error + pyfloat" where
  "total_seconds t = int_truediv (delta_to_microseconds t) 1000000"

text \<open>\<open>trunc\<close> rounds towards zero (the integral part \<open>modf\<close> returns); \<open>c_round\<close> is
  C's \<open>round\<close>: to nearest, halves away from zero.\<close>

definition trunc :: "rat \<Rightarrow> int" where
  "trunc x = (if 0 \<le> x then \<lfloor>x\<rfloor> else \<lceil>x\<rceil>)"

definition c_round :: "rat \<Rightarrow> int" where
  "c_round x = (if 0 \<le> x then \<lfloor>x + 1 / 2\<rfloor> else \<lceil>x - 1 / 2\<rceil>)"

text \<open>
  \<open>timedelta(seconds=x)\<close> for a float \<open>x\<close>: the whole seconds count exactly; the
  fraction is multiplied by \<open>1e6\<close> in floating point, its whole part is added and the
  rest is rounded to the nearest microsecond, a half to the even total.
\<close>

definition float_seconds_to_us :: "rat \<Rightarrow> int" where
  "float_seconds_to_us dnum =
     (let intpart = trunc dnum; fracpart = dnum - of_int intpart;
          sum = intpart * 1000000;
          (y, leftover_us) =
             (if fracpart = 0 then (sum, 0)
              else let dnum' = fl (1000000 * fracpart); intpart' = trunc dnum'
                   in (sum + intpart', dnum' - of_int intpart'));
          whole_us =
             (if leftover_us = 0 then 0
              else let w = c_round leftover_us
                   in if \<bar>of_int w - leftover_us\<bar> = 1 / 2
                      then let x_is_odd = (if odd y then 1 else 0)
                           in 2 * c_round ((leftover_us + of_int x_is_odd) * (1 / 2)) - x_is_odd
                      else w)
      in y + whole_us)"

definition timedelta_seconds :: "pyfloat \<Rightarrow> py_error + timedelta" where
  "timedelta_seconds x =
     (case x of
        FNaN \<Rightarrow> Inl ValueError
      | FInf _ \<Rightarrow> Inl OverflowError
      | FFin dnum \<Rightarrow> microseconds_to_delta (float_seconds_to_us dnum))"

text \<open>\<open>a - b\<close> for two datetimes.\<close>

definition datetime_sub :: "datetime \<Rightarrow> datetime \<Rightarrow> py_error + timedelta" where
  "datetime_sub a b =
     (let delta_d = ymd_to_ord (year a) (month a) (day a) - ymd_to_ord (year b) (month b) (day b);
          delta_s = (hour a - hour b) * 3600 + (minute a - minute b) * 60 + (second a - second b);
          delta_us = microsecond a - microsecond b;
          s1 = delta_s + delta_us div 1000000; u = delta_us mod 1000000;
          d1 = delta_d + s1 div 86400; s = s1 mod 86400
      in if d1 < - 999999999 \<or> 999999999 < d1 then Inl OverflowError
         else Inr \<lparr>td_days = d1, td_seconds = s, td_microseconds = u\<rparr>)"

text \<open>\<open>a + t\<close> for a datetime and a timedelta: the fields are added and the carries
  are passed upwards, from the microseconds to the date.\<close>

definition datetime_add :: "datetime \<Rightarrow> timedelta \<Rightarrow> py_error + datetime" where
  "datetime_add a t =
     (let us0 = microsecond a + td_microseconds t;
          s0 = second a + td_seconds t + us0 div 1000000; us = us0 mod 1000000;
          mi0 = minute a + s0 div 60; s = s0 mod 60;
          h0 = hour a + mi0 div 60; mi = mi0 mod 60;
          d0 = day a + td_days t + h0 div 24; h = h0 mod 24
      in bind_res (normalize_y_m_d (year a) (month a) d0)
           (\<lambda>(y, m, d). Inr \<lparr>year = y, month = m, day = d,
                               hour = h, minute = mi, second = s, microsecond = us\<rparr>))"

subsection \<open>The timestamps of one day\<close>

text \<open>
  \<open>commits_for_day(base_date, count)\<close>. The window runs from 08:00:00.000000 to
  23:59:59.999999 of the day of \<open>base_date\<close>; \<open>range(count)\<close> is \<open>0, ..., count - 1\<close>.
\<close>

fun collect :: "('a \<Rightarrow> py_error + 'b) \<Rightarrow> 'a list \<Rightarrow> py_error + 'b list" where
  "collect f [] = Inr []"
| "collect f (x # xs) =
     (case f x of
        Inl e \<Rightarrow> Inl e
      | Inr y \<Rightarrow> (case collect f xs of Inl e \<Rightarrow> Inl e | Inr ys \<Rightarrow> Inr (y # ys)))"

definition window_start :: "datetime \<Rightarrow> datetime" where
  "window_start base_date = base_date\<lparr>hour := 8, minute := 0, second := 0, microsecond := 0\<rparr>"

definition window_end :: "datetime \<Rightarrow> datetime" where
  "window_end base_date =
     base_date\<lparr>hour := 23, minute := 59, second := 59, microsecond := 999999\<rparr>"

definition commits_for_day :: "datetime \<Rightarrow> int \<Rightarrow> py_error + datetime list" where
  "commits_for_day base_date count =
     (let start = window_start base_date;
          end = window_end base_date
      in bind_res (datetime_sub end start) (\<lambda>span.
         bind_res (total_seconds span) (\<lambda>span_seconds.
           if count \<le> 1 then Inr (if count \<noteq> 0 then [start] else [])
           else
             bind_res (float_div_int span_seconds (count - 1)) (\<lambda>steps.
               collect (\<lambda>i. bind_res (float_mul_int steps i) (\<lambda>secs.
                             bind_res (timedelta_seconds secs) (\<lambda>t. datetime_add start t)))
                 (map int [0..<nat count])))))"

subsection \<open>Text\<close>

text \<open>\<open>str(n)\<close> for an integer, and the zero-padded fields of \<open>strftime\<close>.\<close>

definition digit_char :: "nat \<Rightarrow> char" where
  "digit_char n = char_of (48 + n)"

function show_nat :: "nat \<Rightarrow> string" where
  "show_nat n = (if n < 10 then [digit_char n] else show_nat (n div 10) @ [digit_char (n mod 10)])"
  by pat_completeness auto
termination
  by (relation "measure (\<lambda>n. n)") auto

definition show_int :: "int \<Rightarrow> string" where
  "show_int i = (if i < 0 then CHR ''-'' # show_nat (nat (- i)) else show_nat (nat i))"

definition zero_pad :: "nat \<Rightarrow> int \<Rightarrow> string" where
  "zero_pad w i = (let s = show_int i in replicate (w - length s) CHR ''0'' @ s)"

text \<open>\<open>t.strftime('%Y-%m-%d %H:%M:%S')\<close> and \<open>t.strftime('%Y-%m-%d %H:%M')\<close>, with the
  fields padded as the Python documentation gives them: the year has four digits (a C
  library that does not pad \<open>%Y\<close> prints a year below 1000 shorter).\<close>

definition strftime_date :: "datetime \<Rightarrow> string" where
  "strftime_date t = zero_pad 4 (year t) @ ''-'' @ zero_pad 2 (month t) @ ''-'' @ zero_pad 2 (day t)"

definition strftime_seconds :: "datetime \<Rightarrow> string" where
  "strftime_seconds t =
     strftime_date t @ '' '' @ zero_pad 2 (hour t) @ '':'' @ zero_pad 2 (minute t)
       @ '':'' @ zero_pad 2 (second t)"

definition strftime_minutes :: "datetime \<Rightarrow> string" where
  "strftime_minutes t =
     strftime_date t @ '' '' @ zero_pad 2 (hour t) @ '':'' @ zero_pad 2 (minute t)"

text \<open>\<open>s.strip()\<close>: the ASCII white space is removed at both ends.\<close>

definition is_space :: "char \<Rightarrow> bool" where
  "is_space c = (of_char c \<in> {9, 10, 11, 12, 13, 28, 29, 30, 31, 32 :: nat})"

definition strip :: "string \<Rightarrow> string" where
  "strip s = rev (dropWhile is_space (rev (dropWhile is_space s)))"

subsection \<open>The world of the program\<close>

text \<open>
  A path is the list of its components; \<open>p / name\<close> appends one and \<open>p.name\<close> is the
  last. The world holds what the program can see or change: the directories and the
  text files, the external commands it has run (oldest first), the lines printed to
  the two streams, the state of the module-wide random generator, the process
  environment and the date of the clock.

  The version-control executable and the random generator are not code of the
  repository. They are parameters (\<open>extern\<close>): the executable answers each call with a
  completed process (exit code and captured output) depending on the whole world, and
  what it does to its own metadata is seen only in its later answers. The paths the
  program reads or writes as files are regular files or absent, and reading and
  writing them succeeds.
\<close>

type_synonym path = "string list"

definition path_join :: "path \<Rightarrow> string \<Rightarrow> path" where
  "path_join p name = p @ [name]"

definition path_name :: "path \<Rightarrow> string" where
  "path_name p = (if p = [] then [] else last p)"

definition path_str :: "path \<Rightarrow> string" where
  "path_str p = (if p = [] then ''/'' else concat (map (\<lambda>c. ''/'' @ c) p))"

record completed =
  returncode :: int
  stdout :: string
  stderr :: string

record git_call =
  gc_argv :: "string list"
  gc_cwd :: path
  gc_env :: "(string \<rightharpoonup> string) option"

record 'r world =
  dirs :: "path set"
  files :: "path \<rightharpoonup> string"
  git_calls :: "git_call list"
  out :: "string list"
  err :: "string list"
  rng :: 'r
  os_environ :: "string \<rightharpoonup> string"
  clock_today :: date

record 'r extern =
  git_exec :: "'r world \<Rightarrow> git_call \<Rightarrow> completed"
  seed_rng :: "int \<Rightarrow> 'r"
  randbelow :: "'r \<Rightarrow> nat \<Rightarrow> nat \<times> 'r"
  resolve :: "string \<Rightarrow> path"

definition path_exists :: "'r world \<Rightarrow> path \<Rightarrow> bool" where
  "path_exists w p = (files w p \<noteq> None \<or> p \<in> dirs w)"

text \<open>
  \<open>p.read_text(encoding='utf-8')\<close> opens the file in text mode with universal newlines:
  every pair CR LF and every other CR of the stored content is read as one LF.
  \<open>p.write_text(s)\<close> stores the text as it is, the line separator of the platform being
  LF (on a platform whose separator is CR LF every LF would be stored as that pair).
\<close>

fun universal_newlines :: "string \<Rightarrow> string" where
  "universal_newlines [] = []"
| "universal_newlines [c] = [if c = CHR 0x0D then CHR 0x0A else c]"
| "universal_newlines (c # d # cs) =
     (if c = CHR 0x0D \<and> d = CHR 0x0A then CHR 0x0A # universal_newlines cs
      else (if c = CHR 0x0D then CHR 0x0A else c) # universal_newlines (d # cs))"

definition read_text :: "'r world \<Rightarrow> path \<Rightarrow> string" where
  "read_text w p = (case files w p of Some c \<Rightarrow> universal_newlines c | None \<Rightarrow> [])"

definition write_text :: "path \<Rightarrow> string \<Rightarrow> 'r world \<Rightarrow> 'r world" where
  "write_text p c w = w\<lparr>files := (files w)(p \<mapsto> c)\<rparr>"

definition print_out :: "string \<Rightarrow> 'r world \<Rightarrow> 'r world" where
  "print_out s w = w\<lparr>out := out w @ [s]\<rparr>"

definition print_err :: "string \<Rightarrow> 'r world \<Rightarrow> 'r world" where
  "print_err s w = w\<lparr>err := err w @ [s]\<rparr>"

text \<open>\<open>random.choice(seq)\<close> is \<open>seq[_randbelow(len(seq))]\<close>.\<close>

definition random_choice :: "'r extern \<Rightarrow> 'a list \<Rightarrow> 'r world \<Rightarrow> 'a \<times> 'r world" where
  "random_choice X xs w =
     (let (k, r) = randbelow X (rng w) (length xs) in (xs ! k, w\<lparr>rng := r\<rparr>))"

subsection \<open>The functions of the program\<close>

definition run_git ::
  "'r extern \<Rightarrow> string list \<Rightarrow> path \<Rightarrow> (string \<rightharpoonup> string) option \<Rightarrow> 'r world
     \<Rightarrow> completed \<times> 'r world" where
  "run_git X args cwd env w =
     (let c = \<lparr>gc_argv = ''git'' # args, gc_cwd = cwd, gc_env = env\<rparr>
      in (git_exec X w c, w\<lparr>git_calls := git_calls w @ [c]\<rparr>))"

definition is_git_repo :: "path \<Rightarrow> 'r world \<Rightarrow> bool" where
  "is_git_repo cwd w = (path_join cwd ''.git'' \<in> dirs w)"

definition readme_text :: string where
  "readme_text = ''# Git Commit History'' @ [CHR 0x0A, CHR 0x0A]
                   @ ''Backfilled commit history.'' @ [CHR 0x0A]"

definition init_repo :: "'r extern \<Rightarrow> path \<Rightarrow> 'r world \<Rightarrow> 'r world" where
  "init_repo X cwd w =
     (let w1 = snd (run_git X [''init''] cwd None w)
      in if \<not> path_exists w1 (path_join cwd ''README.md'')
         then let w2 = write_text (path_join cwd ''README.md'') readme_text w1;
                  w3 = snd (run_git X [''add'', ''README.md''] cwd None w2)
              in snd (run_git X [''commit'', ''-m'', ''Initial commit''] cwd None w3)
         else w1)"

definition log_line :: "datetime \<Rightarrow> int \<Rightarrow> string" where
  "log_line commit_time index =
     strftime_seconds commit_time @ '' | commit #'' @ show_int index @ [CHR 0x0A]"

definition commit_env :: "'r world \<Rightarrow> string \<Rightarrow> (string \<rightharpoonup> string)" where
  "commit_env w ts = (os_environ w)(''GIT_AUTHOR_DATE'' \<mapsto> ts, ''GIT_COMMITTER_DATE'' \<mapsto> ts)"

definition make_commit ::
  "'r extern \<Rightarrow> path \<Rightarrow> datetime \<Rightarrow> string \<Rightarrow> path \<Rightarrow> int \<Rightarrow> 'r world \<Rightarrow> bool \<times> 'r world" where
  "make_commit X cwd commit_time message data_path index w =
     (let ts = strftime_seconds commit_time;
          line = log_line commit_time index;
          content = (if path_exists w data_path then read_text w data_path else []);
          w1 = write_text data_path (content @ line) w;
          env = commit_env w1 ts;
          w2 = snd (run_git X [''add'', path_name data_path] cwd None w1);
          (result, w3) = run_git X [''commit'', ''-m'', message] cwd (Some env) w2;
          w4 = (if returncode result \<noteq> 0 then print_err (stderr result) w3 else w3)
      in (returncode result = 0, w4))"

record args =
  start_year :: int
  commits_per_day :: int
  dry_run :: bool
  seed :: int
  max_days :: "int option"
  directory :: string

definition messages :: "string list" where
  "messages =
     [''Update config'', ''Fix typo'', ''Refactor module'', ''Add tests'', ''Docs'',
      ''Bump version'', ''Cleanup'', ''Optimize'', ''WIP'', ''Minor fix'']"

definition commit_message :: "string \<Rightarrow> datetime \<Rightarrow> string" where
  "commit_message phrase t = phrase @ '' ('' @ strftime_minutes t @ '')''"

text \<open>The inner loop of \<open>main\<close>: one commit for every timestamp of the day.\<close>

fun commit_loop ::
  "'r extern \<Rightarrow> path \<Rightarrow> path \<Rightarrow> datetime list \<Rightarrow> int \<Rightarrow> 'r world \<Rightarrow> int \<times> 'r world" where
  "commit_loop X cwd data_path [] commit_count w = (commit_count, w)"
| "commit_loop X cwd data_path (t # ts) commit_count w =
     (let (phrase, w1) = random_choice X messages w;
          msg = commit_message phrase t;
          w2 = snd (make_commit X cwd t msg data_path (commit_count + 1) w1)
      in commit_loop X cwd data_path ts (commit_count + 1) w2)"

definition progress_line :: "int \<Rightarrow> int \<Rightarrow> string" where
  "progress_line day_count commit_count =
     ''  '' @ show_int day_count @ '' days, '' @ show_int commit_count @ '' commits...''"

text \<open>The outer loop of \<open>main\<close>, over the day offsets \<open>range(total_days)\<close>.\<close>

fun day_loop ::
  "'r extern \<Rightarrow> path \<Rightarrow> path \<Rightarrow> date \<Rightarrow> int \<Rightarrow> int list \<Rightarrow> int \<times> int \<Rightarrow> 'r world
     \<Rightarrow> (py_error + int \<times> int) \<times> 'r world" where
  "day_loop X cwd data_path start_date per_day [] (day_count, commit_count) w =
     (Inr (day_count, commit_count), w)"
| "day_loop X cwd data_path start_date per_day (day_offset # rest) (day_count, commit_count) w =
     (case date_add_days start_date day_offset of
        Inl e \<Rightarrow> (Inl e, w)
      | Inr base \<Rightarrow>
          (case commits_for_day (combine_midnight base) per_day of
             Inl e \<Rightarrow> (Inl e, w)
           | Inr stamps \<Rightarrow>
               let (commit_count', w1) = commit_loop X cwd data_path stamps commit_count w;
                   day_count' = day_count + 1;
                   w2 = (if day_count' mod 100 = 0
                         then print_out (progress_line day_count' commit_count') w1 else w1)
               in day_loop X cwd data_path start_date per_day rest (day_count', commit_count') w2))"

definition plan_line :: "int \<Rightarrow> int \<Rightarrow> int \<Rightarrow> string" where
  "plan_line total_days total_commits per_day =
     ''Planned: '' @ show_int total_days @ '' days, '' @ show_int total_commits
       @ '' commits ('' @ show_int per_day @ ''/day)''"

definition dry_run_line :: string where
  "dry_run_line = ''Dry run '' @ [CHR 0xE2, CHR 0x80, CHR 0x94] @ '' no git commands will be run.''"

definition done_line :: "int \<Rightarrow> int \<Rightarrow> string" where
  "done_line day_count commit_count =
     ''Done. '' @ show_int day_count @ '' days, '' @ show_int commit_count @ '' commits.''"

definition dirty_line :: string where
  "dirty_line = ''Error: working tree has uncommitted changes. Commit or stash them first.''"

definition total_days_of :: "args \<Rightarrow> date \<Rightarrow> date \<Rightarrow> int" where
  "total_days_of a today start_date =
     (let total_days = date_diff_days today start_date + 1
      in case max_days a of None \<Rightarrow> total_days | Some m \<Rightarrow> min total_days m)"

text \<open>
  The pre-flight part of \<open>main\<close> for a run that is not dry: a directory without
  \<open>.git\<close> is initialised, a repository with pending changes stops the run (\<open>True\<close>).
\<close>

definition preflight :: "'r extern \<Rightarrow> path \<Rightarrow> 'r world \<Rightarrow> bool \<times> 'r world" where
  "preflight X cwd w =
     (if \<not> is_git_repo cwd w then (False, init_repo X cwd w)
      else let (r, w1) = run_git X [''status'', ''--short''] cwd None w
           in if strip (stdout r) \<noteq> [] then (True, print_err dirty_line w1) else (False, w1))"

text \<open>\<open>main\<close>: the exit code, or the exception that ends the run, and the world
  it leaves.\<close>

definition main :: "'r extern \<Rightarrow> args \<Rightarrow> 'r world \<Rightarrow> (py_error + int) \<times> 'r world" where
  "main X a w =
     (let cwd = resolve X (directory a) in
      if cwd \<notin> dirs w
      then (Inr 1, print_err (''Error: directory does not exist: '' @ path_str cwd) w)
      else
        let (stop, w1) = (if \<not> dry_run a then preflight X cwd w else (False, w)) in
        if stop then (Inr 1, w1)
        else
          let data_path = path_join cwd ''history.txt'';
              w2 = (if \<not> path_exists w1 data_path \<and> \<not> dry_run a
                    then write_text data_path [] w1 else w1);
              today = clock_today w2
          in case new_year_date (start_year a) of
               Inl e \<Rightarrow> (Inl e, w2)
             | Inr start_date \<Rightarrow>
                 let total_days = total_days_of a today start_date;
                     total_commits = total_days * commits_per_day a;
                     w3 = w2\<lparr>rng := seed_rng X (seed a)\<rparr>;
                     w4 = print_out (plan_line total_days total_commits (commits_per_day a)) w3
                 in if dry_run a then (Inr 0, print_out dry_run_line w4)
                    else
                      (case day_loop X cwd data_path start_date (commits_per_day a)
                              (map int [0..<nat total_days]) (0, 0) w4 of
                         (Inl e, w5) \<Rightarrow> (Inl e, w5)
                       | (Inr (day_count, commit_count), w5) \<Rightarrow>
                           (Inr 0, print_out (done_line day_count commit_count) w5)))"

subsection \<open>What a run is expected to leave behind\<close>

text \<open>
  The vocabulary of the properties below: the text \<open>make_commit\<close> appends for a list of
  timestamps numbered from \<open>i\<close>; the two external calls of one \<open>make_commit\<close> and the
  completed process its commit call returns; the phrases that \<open>n\<close> successive
  \<open>random.choice(messages)\<close> draw from a generator state; and the timestamps of the
  days the outer loop works through before an exception, if any, ends it.
\<close>

fun log_lines :: "datetime list \<Rightarrow> int \<Rightarrow> string" where
  "log_lines [] i = []"
| "log_lines (t # ts) i = log_line t i @ log_lines ts (i + 1)"

definition add_call :: "path \<Rightarrow> path \<Rightarrow> git_call" where
  "add_call cwd data_path =
     \<lparr>gc_argv = [''git'', ''add'', path_name data_path], gc_cwd = cwd, gc_env = None\<rparr>"

definition commit_call :: "path \<Rightarrow> (string \<rightharpoonup> string) \<Rightarrow> string \<Rightarrow> datetime \<Rightarrow> git_call" where
  "commit_call cwd env0 message t =
     \<lparr>gc_argv = [''git'', ''commit'', ''-m'', message], gc_cwd = cwd,
      gc_env = Some (env0(''GIT_AUTHOR_DATE'' \<mapsto> strftime_seconds t,
                          ''GIT_COMMITTER_DATE'' \<mapsto> strftime_seconds t))\<rparr>"

definition commit_result :: "'r extern \<Rightarrow> path \<Rightarrow> datetime \<Rightarrow> string \<Rightarrow> path \<Rightarrow> int \<Rightarrow> 'r world \<Rightarrow> completed" where
  "commit_result X cwd t message data_path index w =
     git_exec X
       (w\<lparr>files := (files w)(data_path \<mapsto> read_text w data_path @ log_line t index),
          git_calls := git_calls w @ [add_call cwd data_path]\<rparr>)
       (commit_call cwd (os_environ w) message t)"

fun choices :: "'r extern \<Rightarrow> 'r \<Rightarrow> nat \<Rightarrow> string list \<times> 'r" where
  "choices X r 0 = ([], r)"
| "choices X r (Suc n) =
     (let (k, r1) = randbelow X r (length messages);
          (ps, r2) = choices X r1 n
      in (messages ! k # ps, r2))"

definition commit_calls :: "path \<Rightarrow> path \<Rightarrow> (string \<rightharpoonup> string) \<Rightarrow> string \<Rightarrow> datetime \<Rightarrow> git_call list" where
  "commit_calls cwd data_path env0 phrase t =
     [add_call cwd data_path, commit_call cwd env0 (commit_message phrase t) t]"

fun plan_days :: "date \<Rightarrow> int \<Rightarrow> int list \<Rightarrow> datetime list" where
  "plan_days start_date per_day [] = []"
| "plan_days start_date per_day (day_offset # rest) =
     (case date_add_days start_date day_offset of
        Inl e \<Rightarrow> []
      | Inr base \<Rightarrow>
          (case commits_for_day (combine_midnight base) per_day of
             Inl e \<Rightarrow> []
           | Inr stamps \<Rightarrow> stamps @ plan_days start_date per_day rest))"

definition git_call_of :: "string list \<Rightarrow> path \<Rightarrow> git_call" where
  "git_call_of args cwd = \<lparr>gc_argv = ''git'' # args, gc_cwd = cwd, gc_env = None\<rparr>"

definition loop_start :: "'r extern \<Rightarrow> args \<Rightarrow> date \<Rightarrow> 'r world \<Rightarrow> 'r world" where
  "loop_start X a start_date w1 =
     (let data_path = path_join (resolve X (directory a)) ''history.txt'';
          w2 = (if \<not> path_exists w1 data_path then write_text data_path [] w1 else w1);
          total_days = total_days_of a (clock_today w2) start_date
      in print_out (plan_line total_days (total_days * commits_per_day a) (commits_per_day a))
           (w2\<lparr>rng := seed_rng X (seed a)\<rparr>))"

definition planned_stamps :: "'r extern \<Rightarrow> args \<Rightarrow> 'r world \<Rightarrow> datetime list" where
  "planned_stamps X a w =
     (let cwd = resolve X (directory a) in
      if cwd \<notin> dirs w \<or> dry_run a \<or> fst (preflight X cwd w) then []
      else case new_year_date (start_year a) of
             Inl e \<Rightarrow> []
           | Inr start_date \<Rightarrow>
               plan_days start_date (commits_per_day a)
                 (map int [0..<nat (total_days_of a (clock_today w) start_date)]))"

definition backfill_messages :: "'r extern \<Rightarrow> args \<Rightarrow> 'r world \<Rightarrow> string list" where
  "backfill_messages X a w =
     map (\<lambda>c. gc_argv c ! 3)
       (filter (\<lambda>c. gc_env c \<noteq> None)
          (drop (length (git_calls w)) (git_calls (snd (main X a w)))))"

definition stamp_at :: "datetime \<Rightarrow> int \<Rightarrow> datetime" where
  "stamp_at b us =
     b\<lparr>hour := 8 + us div 3600000000, minute := us div 60000000 mod 60,
       second := us div 1000000 mod 60, microsecond := us mod 1000000\<rparr>"

definition span_float :: rat where
  "span_float = 7916483719849761 / 137438953472"

definition offset_us :: "int \<Rightarrow> int \<Rightarrow> int" where
  "offset_us m i =
     float_seconds_to_us (fl (fl (span_float / fl (of_int m)) * fl (of_int i)))"

subsection \<open>A small environment for the examples\<close>

text \<open>
  A repository directory without \<open>.git\<close>, a clock at 2 January 2024, an executable
  whose commands all fail (but the status query, which reports a change), and a
  simple generator: the concrete inputs of the examples below.
\<close>

definition demo_git :: "nat world \<Rightarrow> git_call \<Rightarrow> completed" where
  "demo_git w c =
     (if gc_argv c = [''git'', ''status'', ''--short'']
      then \<lparr>returncode = 0, stdout = '' M notes.txt'' @ [CHR 0x0A], stderr = []\<rparr>
      else \<lparr>returncode = 1, stdout = [], stderr = ''fatal''\<rparr>)"

definition demo_extern :: "nat extern" where
  "demo_extern =
     \<lparr>git_exec = demo_git, seed_rng = (\<lambda>s. nat \<bar>s\<bar>),
      randbelow = (\<lambda>r n. ((3 * r + 1) mod n, r + 1)), resolve = (\<lambda>s. [s])\<rparr>"

definition demo_world :: "nat world" where
  "demo_world =
     \<lparr>dirs = {[''repo'']}, files = Map.empty, git_calls = [], out = [], err = [], rng = 0,
      os_environ = Map.empty, clock_today = \<lparr>year = 2024, month = 1, day = 2\<rparr>\<rparr>"

definition demo_args :: args where
  "demo_args =
     \<lparr>start_year = 2024, commits_per_day = 3, dry_run = False, seed = 42,
      max_days = None, directory = ''repo''\<rparr>"

definition at_time :: "int \<Rightarrow> int \<Rightarrow> int \<Rightarrow> int \<Rightarrow> int \<Rightarrow> int \<Rightarrow> int \<Rightarrow> datetime" where
  "at_time y mo d h mi s us =
     \<lparr>year = y, month = mo, day = d, hour = h, minute = mi, second = s, microsecond = us\<rparr>"

definition quiet_extern :: "nat extern" where
  "quiet_extern = demo_extern\<lparr>git_exec := (\<lambda>w c. \<lparr>returncode = 0, stdout = [], stderr = []\<rparr>)\<rparr>"

definition ulp_exp :: "rat \<Rightarrow> int" where
  "ulp_exp x = max (ilog2 x) (- 1022) - 52"

definition eps :: rat where
  "eps = pow2 (- 53)"

text \<open>The time of day of a timestamp, in microseconds since midnight.\<close>

definition time_of_day_us :: "datetime \<Rightarrow> int" where
  "time_of_day_us t = ((hour t * 60 + minute t) * 60 + second t) * 1000000 + microsecond t"

section \<open>Properties\<close>

subsection \<open>The window of a day\<close>

lemma window_span:
  "datetime_sub (window_end b) (window_start b)
     = Inr \<lparr>td_days = 0, td_seconds = 57599, td_microseconds = 999999\<rparr>"
  by (simp add: datetime_sub_def window_end_def window_start_def Let_def)

lemma span_seconds_value:
  "total_seconds \<lparr>td_days = 0, td_seconds = 57599, td_microseconds = 999999\<rparr>
     = Inr (FFin (7916483719849761 / 137438953472))"
  by code_simp

lemma commits_for_day_small:
  "count \<le> 1 \<Longrightarrow>
     commits_for_day b count = Inr (if count \<noteq> 0 then [window_start b] else [])"
  by (simp add: commits_for_day_def window_span span_seconds_value bind_res_def Let_def)

text \<open>
  Claim C10. For every strictly negative count, \<open>commits_for_day\<close> returns the
  one-element sequence holding the window start, 08:00:00.000000 of the day of
  \<open>base_date\<close>: a negative count is treated like a count of one, not like zero.
\<close>

theorem commits_for_day_negative:
  "count < 0 \<Longrightarrow>
     commits_for_day b count
       = Inr [b\<lparr>hour := 8, minute := 0, second := 0, microsecond := 0\<rparr>]"
  by (simp add: commits_for_day_small window_start_def)

theorem commits_for_day_negative_witness:
  "commits_for_day
     \<lparr>year = 2024, month = 2, day = 29, hour = 13, minute = 5, second = 7, microsecond = 11\<rparr>
     (- 4)
   = Inr [\<lparr>year = 2024, month = 2, day = 29,
           hour = 8, minute = 0, second = 0, microsecond = 0\<rparr>]"
  using commits_for_day_negative [of "- 4"
    "\<lparr>year = 2024, month = 2, day = 29, hour = 13, minute = 5, second = 7, microsecond = 11\<rparr>"]
  by simp

subsection \<open>The effect of one commit and of the two loops\<close>

lemma run_git_frame:
  "snd (run_git X args cwd env w) = w\<lparr>git_calls := git_calls w @ [\<lparr>gc_argv = ''git'' # args, gc_cwd = cwd, gc_env = env\<rparr>]\<rparr>"
  "fst (run_git X args cwd env w) = git_exec X w \<lparr>gc_argv = ''git'' # args, gc_cwd = cwd, gc_env = env\<rparr>"
  by (simp_all add: run_git_def Let_def)

text \<open>Reading in text mode leaves no carriage return, and a text without one is read as it is.\<close>

lemma universal_newlines_no_cr: "CHR 0x0D \<notin> set (universal_newlines s)"
  by (induction s rule: universal_newlines.induct) auto

lemma universal_newlines_append:
  "CHR 0x0D \<notin> set xs \<Longrightarrow> universal_newlines (xs @ ys) = xs @ universal_newlines ys"
proof (induction xs rule: universal_newlines.induct)
  case 1
  then show ?case by simp
next
  case (2 c)
  then show ?case by (cases ys) simp_all
next
  case (3 c d cs)
  then show ?case by auto
qed

lemma universal_newlines_id: "CHR 0x0D \<notin> set xs \<Longrightarrow> universal_newlines xs = xs"
  using universal_newlines_append [of xs "[]"] by simp

lemma universal_newlines_again:
  "CHR 0x0D \<notin> set l \<Longrightarrow>
     universal_newlines (universal_newlines s @ l) = universal_newlines s @ l"
  by (simp add: universal_newlines_append universal_newlines_no_cr universal_newlines_id)

lemma digit_char_no_cr: "n < 10 \<Longrightarrow> digit_char n \<noteq> CHR 0x0D"
proof
  assume n: "n < 10" and "digit_char n = CHR 0x0D"
  then have "of_char (char_of (48 + n)) = (of_char (CHR 0x0D) :: nat)"
    by (simp add: digit_char_def)
  then show False
    using n by simp
qed

lemma show_nat_no_cr: "CHR 0x0D \<notin> set (show_nat n)"
proof (induction n rule: show_nat.induct)
  case (1 n)
  show ?case
  proof (cases "n < 10")
    case True
    then show ?thesis
      using digit_char_no_cr [of n] by (subst show_nat.simps) (auto simp del: show_nat.simps)
  next
    case False
    then have "CHR 0x0D \<notin> set (show_nat (n div 10))"
      by (rule 1)
    moreover have "digit_char (n mod 10) \<noteq> CHR 0x0D"
      by (rule digit_char_no_cr) simp
    ultimately show ?thesis
      using False by (subst show_nat.simps) (auto simp del: show_nat.simps)
  qed
qed

lemma show_int_no_cr: "CHR 0x0D \<notin> set (show_int i)"
  by (simp add: show_int_def show_nat_no_cr del: show_nat.simps)

lemma zero_pad_no_cr: "CHR 0x0D \<notin> set (zero_pad k i)"
  by (simp add: zero_pad_def Let_def show_int_no_cr del: show_nat.simps)

lemma log_line_no_cr: "CHR 0x0D \<notin> set (log_line t i)"
  by (simp add: log_line_def strftime_seconds_def strftime_date_def zero_pad_no_cr show_int_no_cr
      del: show_nat.simps)

lemma read_text_appended:
  assumes "files w' p = Some (read_text w p @ log_line t i)"
  shows "read_text w' p = read_text w p @ log_line t i"
proof -
  have "read_text w p = universal_newlines (read_text w p)"
    by (simp add: read_text_def universal_newlines_id universal_newlines_no_cr
        split: option.splits)
  then have "universal_newlines (read_text w p @ log_line t i) = read_text w p @ log_line t i"
    using universal_newlines_again [of "log_line t i" "read_text w p"] log_line_no_cr [of t i]
    by simp
  moreover have "read_text w' p = universal_newlines (read_text w p @ log_line t i)"
    using assms by (simp add: read_text_def [of w'])
  ultimately show ?thesis
    by simp
qed

lemma make_commit_unfold:
  "make_commit X cwd t message data_path index w =
     (let r = commit_result X cwd t message data_path index w in
      (returncode r = 0,
       w\<lparr>files := (files w)(data_path \<mapsto> read_text w data_path @ log_line t index),
          git_calls := git_calls w @ [add_call cwd data_path, commit_call cwd (os_environ w) message t],
          err := (if returncode r \<noteq> 0 then err w @ [stderr r] else err w)\<rparr>))"
  by (simp add: make_commit_def commit_result_def run_git_def Let_def write_text_def
      path_exists_def read_text_def print_err_def add_call_def commit_call_def commit_env_def
      split: option.splits)

lemma log_lines_append:
  "log_lines (xs @ ys) i = log_lines xs i @ log_lines ys (i + int (length xs))"
  by (induction xs arbitrary: i) (simp_all add: add.assoc)

lemma choices_length: "length (fst (choices X r n)) = n"
  by (induction n arbitrary: r) (simp_all add: split_beta Let_def)

lemma choices_add:
  "choices X r (m + n) =
     (let (ps, r1) = choices X r m; (qs, r2) = choices X r1 n in (ps @ qs, r2))"
  by (induction m arbitrary: r) (simp_all add: split_beta Let_def)

lemma commit_loop_effect:
  "commit_loop X cwd dp ts cc w = (cc', w') \<Longrightarrow>
     cc' = cc + int (length ts)
     \<and> read_text w' dp = read_text w dp @ log_lines ts (cc + 1)
     \<and> (\<forall>p. p \<noteq> dp \<longrightarrow> files w' p = files w p)
     \<and> (files w dp \<noteq> None \<longrightarrow> files w' dp \<noteq> None)
     \<and> dirs w' = dirs w \<and> out w' = out w
     \<and> os_environ w' = os_environ w \<and> clock_today w' = clock_today w
     \<and> rng w' = snd (choices X (rng w) (length ts))
     \<and> git_calls w' = git_calls w
          @ concat (map2 (commit_calls cwd dp (os_environ w)) (fst (choices X (rng w) (length ts))) ts)"
proof (induction ts arbitrary: cc w)
  case Nil
  then show ?case by simp
next
  case (Cons t ts)
  obtain k r1 where k: "randbelow X (rng w) (length messages) = (k, r1)"
    by (cases "randbelow X (rng w) (length messages)")
  define w1 where "w1 = w\<lparr>rng := r1\<rparr>"
  define w2 where "w2 = snd (make_commit X cwd t (commit_message (messages ! k) t) dp (cc + 1) w1)"
  have step: "commit_loop X cwd dp ts (cc + 1) w2 = (cc', w')"
    using Cons.prems k by (simp add: random_choice_def w1_def w2_def Let_def)
  note ih = Cons.IH [OF step]
  have "files w2 dp = Some (read_text w dp @ log_line t (cc + 1))"
    by (simp add: w2_def w1_def make_commit_unfold Let_def read_text_def)
  then have w2r: "read_text w2 dp = read_text w dp @ log_line t (cc + 1)"
    by (rule read_text_appended)
  have w2f: "\<And>p. p \<noteq> dp \<Longrightarrow> files w2 p = files w p" "files w2 dp \<noteq> None"
    "dirs w2 = dirs w" "out w2 = out w" "os_environ w2 = os_environ w"
    "clock_today w2 = clock_today w" "rng w2 = r1"
    "git_calls w2 = git_calls w @ commit_calls cwd dp (os_environ w) (messages ! k) t"
    by (simp_all add: w2_def w1_def make_commit_unfold Let_def commit_calls_def)
  note w2 = w2r w2f
  obtain ps r2 where ps: "choices X r1 (length ts) = (ps, r2)"
    by (cases "choices X r1 (length ts)")
  show ?case
    using ih w2 k ps by (simp add: Let_def add.assoc)
qed

lemma day_loop_effect:
  "day_loop X cwd dp sd c offs (dc, cc) w = (res, w') \<Longrightarrow>
     read_text w' dp = read_text w dp @ log_lines (plan_days sd c offs) (cc + 1)
     \<and> (\<forall>p. p \<noteq> dp \<longrightarrow> files w' p = files w p)
     \<and> (files w dp \<noteq> None \<longrightarrow> files w' dp \<noteq> None)
     \<and> dirs w' = dirs w \<and> (\<exists>extra. out w' = out w @ extra)
     \<and> os_environ w' = os_environ w \<and> clock_today w' = clock_today w
     \<and> rng w' = snd (choices X (rng w) (length (plan_days sd c offs)))
     \<and> git_calls w' = git_calls w
          @ concat (map2 (commit_calls cwd dp (os_environ w))
                      (fst (choices X (rng w) (length (plan_days sd c offs)))) (plan_days sd c offs))
     \<and> (\<forall>d k. res = Inr (d, k) \<longrightarrow>
            k = cc + int (length (plan_days sd c offs)) \<and> d = dc + int (length offs))"
proof (induction offs arbitrary: dc cc w)
  case Nil
  then show ?case by auto
next
  case (Cons off offs)
  show ?case
  proof (cases "date_add_days sd off")
    case (Inl e)
    with Cons.prems show ?thesis by auto
  next
    case (Inr base)
    show ?thesis
    proof (cases "commits_for_day (combine_midnight base) c")
      case (Inl e)
      with Cons.prems Inr show ?thesis by auto
    next
      case stamps: (Inr stamps)
      obtain cc1 w1 where cl: "commit_loop X cwd dp stamps cc w = (cc1, w1)"
        by (cases "commit_loop X cwd dp stamps cc w")
      define w2 where "w2 = (if (dc + 1) mod 100 = 0
                             then print_out (progress_line (dc + 1) cc1) w1 else w1)"
      have step: "day_loop X cwd dp sd c offs (dc + 1, cc1) w2 = (res, w')"
        using Cons.prems Inr stamps cl by (simp add: w2_def Let_def)
      note ih = Cons.IH [OF step]
      note ce = commit_loop_effect [OF cl]
      have w2: "read_text w2 dp = read_text w1 dp" "files w2 = files w1" "dirs w2 = dirs w1"
        "os_environ w2 = os_environ w1" "clock_today w2 = clock_today w1" "rng w2 = rng w1"
        "git_calls w2 = git_calls w1" "\<exists>extra. out w2 = out w1 @ extra"
        by (simp_all add: w2_def print_out_def read_text_def)
      obtain ps r1 where ps: "choices X (rng w) (length stamps) = (ps, r1)"
        by (cases "choices X (rng w) (length stamps)")
      have lps: "length ps = length stamps"
        using choices_length [of X "rng w" "length stamps"] ps by simp
      obtain qs r2 where qs: "choices X r1 (length (plan_days sd c offs)) = (qs, r2)"
        by (cases "choices X r1 (length (plan_days sd c offs))")
      have pd: "plan_days sd c (off # offs) = stamps @ plan_days sd c offs"
        using Inr stamps by simp
      have ch: "choices X (rng w) (length stamps + length (plan_days sd c offs)) = (ps @ qs, r2)"
        using ps qs by (simp add: choices_add)
      have out: "\<exists>extra. out w' = out w @ extra"
        using ih ce w2 by (metis append.assoc)
      show ?thesis
        unfolding pd
        using ih ce w2(1-7) ps qs lps ch out
        by (simp add: log_lines_append ac_simps)
    qed
  qed
qed

subsection \<open>The pre-flight checks and the whole run\<close>

lemma init_repo_unfold:
  "init_repo X cwd w =
     (if \<not> path_exists w (path_join cwd ''README.md'')
      then w\<lparr>files := (files w)(path_join cwd ''README.md'' \<mapsto> readme_text),
             git_calls := git_calls w @ [git_call_of [''init''] cwd,
                                         git_call_of [''add'', ''README.md''] cwd,
                                         git_call_of [''commit'', ''-m'', ''Initial commit''] cwd]\<rparr>
      else w\<lparr>git_calls := git_calls w @ [git_call_of [''init''] cwd]\<rparr>)"
  by (simp add: init_repo_def run_git_def Let_def path_exists_def write_text_def git_call_of_def)

lemma preflight_unfold:
  "preflight X cwd w =
     (if \<not> is_git_repo cwd w then (False, init_repo X cwd w)
      else if strip (stdout (git_exec X w (git_call_of [''status'', ''--short''] cwd))) \<noteq> []
           then (True, w\<lparr>git_calls := git_calls w @ [git_call_of [''status'', ''--short''] cwd],
                          err := err w @ [dirty_line]\<rparr>)
           else (False, w\<lparr>git_calls := git_calls w @ [git_call_of [''status'', ''--short''] cwd]\<rparr>))"
  by (simp add: preflight_def run_git_def Let_def print_err_def git_call_of_def)

lemma preflight_frame:
  "preflight X cwd w = (stop, w1) \<Longrightarrow>
     files w1 (path_join cwd ''history.txt'') = files w (path_join cwd ''history.txt'')
     \<and> dirs w1 = dirs w \<and> out w1 = out w \<and> os_environ w1 = os_environ w
     \<and> clock_today w1 = clock_today w"
  by (auto simp: preflight_unfold init_repo_unfold path_join_def split: if_splits)

lemma main_missing:
  "resolve X (directory a) \<notin> dirs w \<Longrightarrow>
     main X a w = (Inr 1, print_err (''Error: directory does not exist: ''
                                       @ path_str (resolve X (directory a))) w)"
  by (simp add: main_def Let_def)

lemma main_dry:
  "resolve X (directory a) \<in> dirs w \<Longrightarrow> dry_run a \<Longrightarrow>
     main X a w =
       (case new_year_date (start_year a) of
          Inl e \<Rightarrow> (Inl e, w)
        | Inr start_date \<Rightarrow>
            (Inr 0, w\<lparr>out := out w @ [plan_line (total_days_of a (clock_today w) start_date)
                                         (total_days_of a (clock_today w) start_date * commits_per_day a)
                                         (commits_per_day a), dry_run_line],
                      rng := seed_rng X (seed a)\<rparr>))"
  by (simp add: main_def Let_def print_out_def split: sum.splits)

lemma main_stopped:
  "resolve X (directory a) \<in> dirs w \<Longrightarrow> \<not> dry_run a \<Longrightarrow>
     preflight X (resolve X (directory a)) w = (True, w1) \<Longrightarrow> main X a w = (Inr 1, w1)"
  by (simp add: main_def Let_def)

lemma main_run:
  "resolve X (directory a) \<in> dirs w \<Longrightarrow> \<not> dry_run a \<Longrightarrow>
     preflight X (resolve X (directory a)) w = (False, w1) \<Longrightarrow>
     main X a w =
       (case new_year_date (start_year a) of
          Inl e \<Rightarrow> (Inl e, if \<not> path_exists w1 (path_join (resolve X (directory a)) ''history.txt'')
                          then write_text (path_join (resolve X (directory a)) ''history.txt'') [] w1 else w1)
        | Inr start_date \<Rightarrow>
            (case day_loop X (resolve X (directory a))
                    (path_join (resolve X (directory a)) ''history.txt'') start_date
                    (commits_per_day a)
                    (map int [0..<nat (total_days_of a (clock_today w1) start_date)]) (0, 0)
                    (loop_start X a start_date w1) of
               (Inl e, w5) \<Rightarrow> (Inl e, w5)
             | (Inr (day_count, commit_count), w5) \<Rightarrow>
                 (Inr 0, print_out (done_line day_count commit_count) w5)))"
  by (simp add: main_def Let_def loop_start_def write_text_def split: sum.splits)

lemma loop_start_frame:
  "read_text (loop_start X a sd w1) (path_join (resolve X (directory a)) ''history.txt'')
     = read_text w1 (path_join (resolve X (directory a)) ''history.txt'')"
  "rng (loop_start X a sd w1) = seed_rng X (seed a)"
  "git_calls (loop_start X a sd w1) = git_calls w1"
  "os_environ (loop_start X a sd w1) = os_environ w1"
  "dirs (loop_start X a sd w1) = dirs w1"
  by (auto simp: loop_start_def Let_def print_out_def write_text_def read_text_def path_exists_def
      split: option.splits)

lemma main_run_effect:
  assumes dir: "resolve X (directory a) \<in> dirs w" and nd: "\<not> dry_run a"
    and pf: "preflight X (resolve X (directory a)) w = (False, w1)"
    and sd: "new_year_date (start_year a) = Inr sd"
  shows "read_text (snd (main X a w)) (path_join (resolve X (directory a)) ''history.txt'')
           = read_text w (path_join (resolve X (directory a)) ''history.txt'')
               @ log_lines (planned_stamps X a w) 1"
    and "git_calls (snd (main X a w))
           = git_calls w1
               @ concat (map2 (commit_calls (resolve X (directory a))
                                 (path_join (resolve X (directory a)) ''history.txt'') (os_environ w))
                           (fst (choices X (seed_rng X (seed a)) (length (planned_stamps X a w))))
                           (planned_stamps X a w))"
    and "\<And>e. fst (main X a w) \<noteq> Inr 1"
proof -
  let ?cwd = "resolve X (directory a)"
  let ?dp = "path_join ?cwd ''history.txt''"
  let ?offs = "map int [0..<nat (total_days_of a (clock_today w) sd)]"
  let ?w4 = "loop_start X a sd w1"
  note fr = preflight_frame [OF pf]
  have ps: "planned_stamps X a w = plan_days sd (commits_per_day a) ?offs"
    using dir nd pf sd by (simp add: planned_stamps_def)
  obtain res w5 where dl:
    "day_loop X ?cwd ?dp sd (commits_per_day a) ?offs (0, 0) ?w4 = (res, w5)"
    by (cases "day_loop X ?cwd ?dp sd (commits_per_day a) ?offs (0, 0) ?w4")
  note de = day_loop_effect [OF dl]
  have m: "main X a w =
             (case res of Inl e \<Rightarrow> (Inl e, w5)
              | Inr (dc, cc) \<Rightarrow> (Inr 0, print_out (done_line dc cc) w5))"
    using main_run [OF dir nd pf] sd dl fr by (simp split: sum.splits)
  have s5: "files (snd (main X a w)) = files w5" "git_calls (snd (main X a w)) = git_calls w5"
    using m by (auto simp: print_out_def split: sum.splits)
  have r0: "read_text w1 ?dp = read_text w ?dp"
    using fr by (simp add: read_text_def)
  show "read_text (snd (main X a w)) ?dp = read_text w ?dp @ log_lines (planned_stamps X a w) 1"
    using de s5 r0 ps loop_start_frame(1) [of X a sd w1] by (simp add: read_text_def)
  show "git_calls (snd (main X a w))
           = git_calls w1
               @ concat (map2 (commit_calls ?cwd ?dp (os_environ w))
                           (fst (choices X (seed_rng X (seed a)) (length (planned_stamps X a w))))
                           (planned_stamps X a w))"
    using de s5 ps fr loop_start_frame(2-4) [of X a sd w1] by simp
  show "\<And>e. fst (main X a w) \<noteq> Inr 1"
    using m by (auto split: sum.splits)
qed

lemma main_log:
  "read_text (snd (main X a w)) (path_join (resolve X (directory a)) ''history.txt'')
     = read_text w (path_join (resolve X (directory a)) ''history.txt'')
         @ log_lines (planned_stamps X a w) 1"
proof -
  let ?cwd = "resolve X (directory a)"
  consider (missing) "?cwd \<notin> dirs w" | (dry) "?cwd \<in> dirs w" "dry_run a"
    | (run) "?cwd \<in> dirs w" "\<not> dry_run a"
    by blast
  then show ?thesis
  proof cases
    case missing
    then show ?thesis
      by (simp add: main_missing planned_stamps_def print_err_def read_text_def)
  next
    case dry
    then show ?thesis
      by (simp add: main_dry planned_stamps_def read_text_def split: sum.splits)
  next
    case run
    obtain stop w1 where pf: "preflight X ?cwd w = (stop, w1)"
      by (cases "preflight X ?cwd w")
    note fr = preflight_frame [OF pf]
    show ?thesis
    proof (cases stop)
      case True
      then show ?thesis
        using run pf fr main_stopped [of X a w w1]
        by (simp add: planned_stamps_def read_text_def)
    next
      case False
      show ?thesis
      proof (cases "new_year_date (start_year a)")
        case (Inl e)
        then show ?thesis
          using run pf fr False main_run [of X a w w1]
          by (auto simp: planned_stamps_def read_text_def write_text_def path_exists_def)
      next
        case (Inr sd)
        then show ?thesis
          using run pf False main_run_effect(1) [of X a w w1 sd] by simp
      qed
    qed
  qed
qed

lemma log_lines_nth:
  "log_lines ts i = concat (map (\<lambda>k. log_line (ts ! k) (i + int k)) [0..<length ts])"
proof (induction ts arbitrary: i)
  case Nil
  then show ?case by simp
next
  case (Cons t ts)
  have "[0..<length (t # ts)] = 0 # map Suc [0..<length ts]"
    by (simp add: upt_conv_Cons map_Suc_upt del: upt_Suc)
  then show ?case
    using Cons.IH [of "i + 1"] by (simp add: comp_def ac_simps)
qed

subsection \<open>The commit messages of a run\<close>

lemma choices_cong:
  "randbelow X1 = randbelow X2 \<Longrightarrow> choices X1 r n = choices X2 r n"
  by (induction n arbitrary: r) (simp_all add: split_beta Let_def)

lemma choices_in_pool:
  "(\<And>r. fst (randbelow X r (length messages)) < length messages) \<Longrightarrow>
     set (fst (choices X r n)) \<subseteq> set messages"
  by (induction n arbitrary: r) (auto simp: split_beta Let_def)

lemma filter_commit_calls:
  "length ps = length ts \<Longrightarrow>
     map (\<lambda>c. gc_argv c ! 3)
       (filter (\<lambda>c. gc_env c \<noteq> None) (concat (map2 (commit_calls cwd dp env0) ps ts)))
     = map2 commit_message ps ts"
proof (induction ps arbitrary: ts)
  case Nil
  then show ?case by simp
next
  case (Cons p ps)
  then obtain t ts' where "ts = t # ts'" by (cases ts) auto
  with Cons show ?case
    by (simp add: commit_calls_def add_call_def commit_call_def)
qed

lemma preflight_calls:
  "preflight X cwd w = (stop, w1) \<Longrightarrow>
     \<exists>pre. git_calls w1 = git_calls w @ pre \<and> (\<forall>c \<in> set pre. gc_env c = None)"
  by (auto simp: preflight_unfold init_repo_unfold git_call_of_def split: if_splits)

lemma backfill_messages_eq:
  "backfill_messages X a w
     = map2 commit_message
         (fst (choices X (seed_rng X (seed a)) (length (planned_stamps X a w))))
         (planned_stamps X a w)"
proof -
  let ?cwd = "resolve X (directory a)"
  consider (missing) "?cwd \<notin> dirs w" | (dry) "?cwd \<in> dirs w" "dry_run a"
    | (run) "?cwd \<in> dirs w" "\<not> dry_run a"
    by blast
  then show ?thesis
  proof cases
    case missing
    then show ?thesis
      by (simp add: main_missing planned_stamps_def print_err_def backfill_messages_def)
  next
    case dry
    then show ?thesis
      by (simp add: main_dry planned_stamps_def backfill_messages_def split: sum.splits)
  next
    case run
    obtain stop w1 where pf: "preflight X ?cwd w = (stop, w1)"
      by (cases "preflight X ?cwd w")
    from preflight_calls [OF pf] obtain pre where
      pre: "git_calls w1 = git_calls w @ pre" "\<forall>c \<in> set pre. gc_env c = None"
      by blast
    have fpre: "filter (\<lambda>c. gc_env c \<noteq> None) pre = []"
      using pre(2) by (simp add: filter_empty_conv)
    show ?thesis
    proof (cases stop)
      case True
      then show ?thesis
        using run pf pre fpre main_stopped [of X a w w1]
        by (simp add: planned_stamps_def backfill_messages_def)
    next
      case False
      show ?thesis
      proof (cases "new_year_date (start_year a)")
        case (Inl e)
        then show ?thesis
          using run pf pre fpre False main_run [of X a w w1]
          by (simp add: planned_stamps_def backfill_messages_def write_text_def)
      next
        case (Inr sd)
        have "git_calls (snd (main X a w))
                = git_calls w @ pre
                    @ concat (map2 (commit_calls ?cwd (path_join ?cwd ''history.txt'') (os_environ w))
                        (fst (choices X (seed_rng X (seed a)) (length (planned_stamps X a w))))
                        (planned_stamps X a w))"
          using run pf False Inr pre main_run_effect(2) [of X a w w1 sd] by simp
        then show ?thesis
          using fpre
          by (simp add: backfill_messages_def filter_commit_calls choices_length
              del: not_None_eq)
      qed
    qed
  qed
qed

lemma planned_stamps_run:
  "resolve X (directory a) \<in> dirs w \<Longrightarrow> \<not> dry_run a \<Longrightarrow>
   \<not> fst (preflight X (resolve X (directory a)) w) \<Longrightarrow>
     planned_stamps X a w =
       (case new_year_date (start_year a) of
          Inl e \<Rightarrow> []
        | Inr start_date \<Rightarrow>
            plan_days start_date (commits_per_day a)
              (map int [0..<nat (total_days_of a (clock_today w) start_date)]))"
  by (simp add: planned_stamps_def)

subsection \<open>The timestamps of a day, for a count of two or more\<close>

lemma collect_map:
  "(\<And>x. x \<in> set xs \<Longrightarrow> f x = Inr (g x)) \<Longrightarrow> collect f xs = Inr (map g xs)"
  by (induction xs) simp_all

lemma fround_finite: "ilog2 (fl x) < 1024 \<Longrightarrow> fround x = FFin (fl x)"
  by (simp add: fround_def Let_def)

lemma normalize_valid:
  "MINYEAR \<le> y \<Longrightarrow> y \<le> MAXYEAR \<Longrightarrow> 1 \<le> d \<Longrightarrow> d \<le> days_in_month y m \<Longrightarrow>
     normalize_y_m_d y m d = Inr (y, m, d)"
  by (simp add: normalize_y_m_d_def Let_def)

lemma datetime_add_window:
  assumes v: "valid_date b" and lo: "0 \<le> us" and hi: "us \<le> 57599999999"
  shows "bind_res (microseconds_to_delta us) (datetime_add (window_start b)) = Inr (stamp_at b us)"
proof -
  have s: "us div 1000000 div 86400 = 0" "us div 1000000 mod 86400 = us div 1000000"
    using lo hi by auto
  have td: "microseconds_to_delta us
              = Inr \<lparr>td_days = 0, td_seconds = us div 1000000, td_microseconds = us mod 1000000\<rparr>"
    using s by (simp add: microseconds_to_delta_def Let_def)
  have a1: "us mod 1000000 div 1000000 = 0"
    by simp
  have a2: "us div 1000000 div 60 = us div 60000000"
    by (simp add: div_mult2_eq [symmetric])
  have a3: "us div 60000000 div 60 = us div 3600000000"
    by (simp add: div_mult2_eq [symmetric])
  have h: "(8 + us div 3600000000) div 24 = 0"
    "(8 + us div 3600000000) mod 24 = 8 + us div 3600000000"
    using lo hi by auto
  have n: "normalize_y_m_d (year b) (month b) (day b) = Inr (year b, month b, day b)"
    using v by (simp add: valid_date_def normalize_valid)
  have "datetime_add (window_start b)
          \<lparr>td_days = 0, td_seconds = us div 1000000, td_microseconds = us mod 1000000\<rparr>
        = Inr (stamp_at b us)"
    by (simp add: datetime_add_def window_start_def Let_def a1 a2 a3 h n bind_res_def stamp_at_def)
  then show ?thesis
    by (simp add: td bind_res_def)
qed

lemma commits_for_day_many:
  assumes v: "valid_date b" and c: "1 \<le> m"
    and m: "ilog2 (fl (of_int m)) < 1024" "fl (of_int m) \<noteq> 0"
    and st: "ilog2 (fl (span_float / fl (of_int m))) < 1024"
    and each: "\<And>i. 0 \<le> i \<Longrightarrow> i \<le> m \<Longrightarrow>
                 ilog2 (fl (of_int i)) < 1024
                 \<and> ilog2 (fl (fl (span_float / fl (of_int m)) * fl (of_int i))) < 1024
                 \<and> 0 \<le> offset_us m i \<and> offset_us m i \<le> 57599999999"
  shows "commits_for_day b (m + 1)
           = Inr (map (\<lambda>i. stamp_at b (offset_us m (int i))) [0..<Suc (nat m)])"
proof -
  define steps where "steps = fl (span_float / fl (of_int m))"
  let ?f = "\<lambda>i. bind_res (float_mul_int (FFin steps) i) (\<lambda>secs.
                 bind_res (timedelta_seconds secs) (\<lambda>t. datetime_add (window_start b) t))"
  have div: "float_div_int (FFin span_float) m = Inr (FFin steps)"
    using m st by (simp add: float_div_int_def float_of_int_def fround_finite bind_res_def steps_def)
  have one: "?f i = Inr (stamp_at b (offset_us m i))"
    if "i \<in> set (map int [0..<Suc (nat m)])" for i
  proof -
    have i: "0 \<le> i" "i \<le> m" using that c by auto
    note e = each [OF i, folded steps_def]
    have mul: "float_mul_int (FFin steps) i = Inr (FFin (fl (steps * fl (of_int i))))"
      using e by (simp add: float_mul_int_def float_of_int_def fround_finite bind_res_def)
    have off: "offset_us m i = float_seconds_to_us (fl (steps * fl (of_int i)))"
      by (simp add: offset_us_def steps_def)
    have "?f i = bind_res (microseconds_to_delta (offset_us m i))
                   (datetime_add (window_start b))"
      by (simp add: mul bind_res_def timedelta_seconds_def off)
    then show ?thesis
      using datetime_add_window [OF v] e by simp
  qed
  have "collect ?f (map int [0..<Suc (nat m)])
          = Inr (map (\<lambda>i. stamp_at b (offset_us m i)) (map int [0..<Suc (nat m)]))"
    by (rule collect_map) (rule one)
  moreover have "nat (m + 1) = Suc (nat m)"
    using c by simp
  ultimately show ?thesis
    using c div
    by (simp add: commits_for_day_def window_span span_seconds_value span_float_def
        bind_res_def Let_def comp_def del: upt_Suc)
qed

lemma three_floats:
  "ilog2 (fl (of_int 2)) < 1024" "fl (of_int 2) \<noteq> 0"
  "ilog2 (fl (span_float / fl (of_int 2))) < 1024"
  "ilog2 (fl (of_int 0)) < 1024" "ilog2 (fl (of_int 1)) < 1024"
  "ilog2 (fl (fl (span_float / fl (of_int 2)) * fl (of_int 0))) < 1024"
  "ilog2 (fl (fl (span_float / fl (of_int 2)) * fl (of_int 1))) < 1024"
  "ilog2 (fl (fl (span_float / fl (of_int 2)) * fl (of_int 2))) < 1024"
  by code_simp+

lemma three_offsets:
  "offset_us 2 0 = 0" "offset_us 2 1 = 28799999999" "offset_us 2 2 = 57599999999"
  by code_simp+

lemma commits_for_day_three:
  assumes "valid_date b"
  shows "commits_for_day b 3
           = Inr [b\<lparr>hour := 8, minute := 0, second := 0, microsecond := 0\<rparr>,
                  b\<lparr>hour := 15, minute := 59, second := 59, microsecond := 999999\<rparr>,
                  b\<lparr>hour := 23, minute := 59, second := 59, microsecond := 999999\<rparr>]"
proof -
  have each: "ilog2 (fl (of_int i)) < 1024
              \<and> ilog2 (fl (fl (span_float / fl (of_int 2)) * fl (of_int i))) < 1024
              \<and> 0 \<le> offset_us 2 i \<and> offset_us 2 i \<le> 57599999999"
    if "0 \<le> i" "i \<le> 2" for i
  proof -
    from that have "i = 0 \<or> i = 1 \<or> i = 2" by auto
    then show ?thesis
      using three_floats three_offsets by auto
  qed
  have "commits_for_day b (2 + 1)
          = Inr (map (\<lambda>i. stamp_at b (offset_us 2 (int i))) [0..<Suc (nat 2)])"
    using assms three_floats(1-3) each by (intro commits_for_day_many) auto
  moreover have "[0..<Suc (nat 2)] = [0, 1, 2]"
    by (simp add: upt_rec)
  ultimately show ?thesis
    using three_offsets by (simp add: stamp_at_def)
qed

subsection \<open>The claims about the run\<close>

lemma demo_lines:
  "log_line (at_time 2024 1 1 8 0 0 0) 1 = ''2024-01-01 08:00:00 | commit #1'' @ [CHR 0x0A]"
  "log_line (at_time 2024 1 1 15 59 59 999999) 2 = ''2024-01-01 15:59:59 | commit #2'' @ [CHR 0x0A]"
  "log_line (at_time 2024 1 1 23 59 59 999999) 3 = ''2024-01-01 23:59:59 | commit #3'' @ [CHR 0x0A]"
  "log_line (at_time 2024 1 2 8 0 0 0) 4 = ''2024-01-02 08:00:00 | commit #4'' @ [CHR 0x0A]"
  "log_line (at_time 2024 1 2 15 59 59 999999) 5 = ''2024-01-02 15:59:59 | commit #5'' @ [CHR 0x0A]"
  "log_line (at_time 2024 1 2 23 59 59 999999) 6 = ''2024-01-02 23:59:59 | commit #6'' @ [CHR 0x0A]"
  by code_simp+

lemma valid_demo_days:
  "valid_date (combine_midnight \<lparr>year = 2024, month = 1, day = 1\<rparr>)"
  "valid_date (combine_midnight \<lparr>year = 2024, month = 1, day = 2\<rparr>)"
  "days_in_month 2024 1 = 31"
  by code_simp+

lemma demo_day1:
  "commits_for_day (combine_midnight \<lparr>year = 2024, month = 1, day = 1\<rparr>) 3
     = Inr [at_time 2024 1 1 8 0 0 0, at_time 2024 1 1 15 59 59 999999,
            at_time 2024 1 1 23 59 59 999999]"
  using commits_for_day_three [OF valid_demo_days(1)]
  by (simp add: combine_midnight_def at_time_def)

lemma demo_day2:
  "commits_for_day (combine_midnight \<lparr>year = 2024, month = 1, day = 2\<rparr>) 3
     = Inr [at_time 2024 1 2 8 0 0 0, at_time 2024 1 2 15 59 59 999999,
            at_time 2024 1 2 23 59 59 999999]"
  using commits_for_day_three [OF valid_demo_days(2)]
  by (simp add: combine_midnight_def at_time_def)

lemma demo_plan_days:
  "plan_days \<lparr>year = 2024, month = 1, day = 1\<rparr> 3 [0, 1]
     = [at_time 2024 1 1 8 0 0 0, at_time 2024 1 1 15 59 59 999999,
        at_time 2024 1 1 23 59 59 999999, at_time 2024 1 2 8 0 0 0,
        at_time 2024 1 2 15 59 59 999999, at_time 2024 1 2 23 59 59 999999]"
  by (simp add: date_add_days_def normalize_valid valid_demo_days(3) MINYEAR_def MAXYEAR_def
      bind_res_def demo_day1 demo_day2)

lemma demo_planned_stamps:
  "planned_stamps demo_extern demo_args demo_world
     = [at_time 2024 1 1 8 0 0 0, at_time 2024 1 1 15 59 59 999999,
        at_time 2024 1 1 23 59 59 999999, at_time 2024 1 2 8 0 0 0,
        at_time 2024 1 2 15 59 59 999999, at_time 2024 1 2 23 59 59 999999]"
proof -
  have "total_days_of demo_args \<lparr>year = 2024, month = 1, day = 2\<rparr>
          \<lparr>year = 2024, month = 1, day = 1\<rparr> = 2"
    by (simp add: total_days_of_def date_diff_days_def ymd_to_ord_def demo_args_def)
  moreover have "map int [0..<nat 2] = [0, 1]"
    by (simp add: upt_rec)
  ultimately show ?thesis
    using demo_plan_days
    by (simp add: planned_stamps_def demo_extern_def demo_args_def demo_world_def
        preflight_unfold is_git_repo_def path_join_def new_year_date_def MINYEAR_def MAXYEAR_def)
qed

text \<open>
  Claim C2. In every run, dry or not, the text the run adds to \<open>history.txt\<close> is one
  line for each timestamp of the plan, in order, and the line of the \<open>k\<close>-th timestamp
  (counted from zero, across the days) carries the index \<open>k + 1\<close>: the index passed to
  \<open>make_commit\<close> starts at 1 and grows by one with every planned commit, whatever the
  external commands answer.
\<close>

theorem commit_index_counts_from_one:
  "read_text (snd (main X a w)) (path_join (resolve X (directory a)) ''history.txt'')
     = read_text w (path_join (resolve X (directory a)) ''history.txt'')
         @ concat (map (\<lambda>k. log_line (planned_stamps X a w ! k) (1 + int k))
                     [0..<length (planned_stamps X a w)])"
  by (simp add: main_log log_lines_nth)

theorem commit_index_counts_from_one_witness:
  "read_text (snd (main demo_extern demo_args demo_world)) [''repo'', ''history.txt'']
     = ''2024-01-01 08:00:00 | commit #1'' @ [CHR 0x0A]
       @ ''2024-01-01 15:59:59 | commit #2'' @ [CHR 0x0A]
       @ ''2024-01-01 23:59:59 | commit #3'' @ [CHR 0x0A]
       @ ''2024-01-02 08:00:00 | commit #4'' @ [CHR 0x0A]
       @ ''2024-01-02 15:59:59 | commit #5'' @ [CHR 0x0A]
       @ ''2024-01-02 23:59:59 | commit #6'' @ [CHR 0x0A]"
proof -
  have six: "[0..<6] = [0, 1, 2, 3, 4, 5]"
    by (simp add: upt_rec)
  have r: "resolve demo_extern (directory demo_args) = [''repo'']"
    "read_text demo_world [''repo'', ''history.txt''] = []"
    by (simp_all add: demo_extern_def demo_args_def demo_world_def read_text_def)
  show ?thesis
    using commit_index_counts_from_one [of demo_extern demo_args demo_world]
    by (simp add: demo_planned_stamps r path_join_def six demo_lines)
qed

text \<open>
  Claim C7, in the form that holds. After every call of \<open>make_commit\<close> with timestamp \<open>t\<close>
  and index \<open>i\<close> the log file holds what was read from it in text mode (nothing, if it
  was absent; else its content with every pair CR LF and every other CR turned into one
  LF) followed by the one line \<open>"<t as YYYY-MM-DD HH:MM:SS> | commit #<i>\n"\<close>. When the
  earlier content holds no carriage return it stays unchanged as a prefix, and the file
  has grown by that line.
\<close>

theorem make_commit_appends_one_line:
  "files (snd (make_commit X cwd commit_time message data_path index w)) data_path
     = Some ((case files w data_path of None \<Rightarrow> [] | Some old \<Rightarrow> universal_newlines old)
             @ strftime_seconds commit_time @ '' | commit #'' @ show_int index @ [CHR 0x0A])
   \<and> (\<forall>old. files w data_path = Some old \<and> CHR 0x0D \<notin> set old \<longrightarrow>
         files (snd (make_commit X cwd commit_time message data_path index w)) data_path
           = Some (old @ strftime_seconds commit_time @ '' | commit #'' @ show_int index
                     @ [CHR 0x0A]))"
proof -
  have 1: "files (snd (make_commit X cwd commit_time message data_path index w)) data_path
     = Some ((case files w data_path of None \<Rightarrow> [] | Some old \<Rightarrow> universal_newlines old)
             @ strftime_seconds commit_time @ '' | commit #'' @ show_int index @ [CHR 0x0A])"
    by (simp add: make_commit_unfold Let_def read_text_def log_line_def del: show_nat.simps)
  show ?thesis
    by (auto simp: 1 universal_newlines_id simp del: show_nat.simps)
qed

theorem make_commit_appends_one_line_witness:
  "CHR 0x0D \<notin> set (''first line'' @ [CHR 0x0A])
   \<and> files (snd (make_commit demo_extern [''repo''] (at_time 2024 1 1 15 59 59 999999) ''WIP''
                 [''repo'', ''history.txt''] 2
                 (demo_world\<lparr>files := [[''repo'', ''history.txt''] \<mapsto> ''first line'' @ [CHR 0x0A]]\<rparr>)))
     [''repo'', ''history.txt'']
   = Some (''first line'' @ [CHR 0x0A] @ ''2024-01-01 15:59:59 | commit #2'' @ [CHR 0x0A])"
  using make_commit_appends_one_line [of demo_extern "[''repo'']"
      "at_time 2024 1 1 15 59 59 999999" "''WIP''" "[''repo'', ''history.txt'']" 2
      "demo_world\<lparr>files := [[''repo'', ''history.txt''] \<mapsto> ''first line'' @ [CHR 0x0A]]\<rparr>",
      THEN conjunct2, rule_format, of "''first line'' @ [CHR 0x0A]"]
    demo_lines(2)
  by (simp add: log_line_def)

text \<open>
  The claim as it was stated fails for a log file with carriage returns: the earlier
  content is written back as it was read, with the line ends turned into LF, so it is
  no prefix of the new content; and a file of forty CR LF pairs, 80 characters, holds
  72 after the call.
\<close>

theorem make_commit_rewrites_line_ends_counterexample:
  "files (snd (make_commit demo_extern [''repo''] (at_time 2024 1 1 15 59 59 999999) ''WIP''
                 [''repo'', ''history.txt''] 2
                 (demo_world\<lparr>files := [[''repo'', ''history.txt'']
                                           \<mapsto> ''old1'' @ [CHR 0x0D, CHR 0x0A] @ ''mac'' @ [CHR 0x0D]]\<rparr>)))
     [''repo'', ''history.txt'']
   = Some (''old1'' @ [CHR 0x0A] @ ''mac'' @ [CHR 0x0A]
             @ ''2024-01-01 15:59:59 | commit #2'' @ [CHR 0x0A])
   \<and> take (length (''old1'' @ [CHR 0x0D, CHR 0x0A] @ ''mac'' @ [CHR 0x0D]))
        (''old1'' @ [CHR 0x0A] @ ''mac'' @ [CHR 0x0A]
           @ ''2024-01-01 15:59:59 | commit #2'' @ [CHR 0x0A])
       \<noteq> ''old1'' @ [CHR 0x0D, CHR 0x0A] @ ''mac'' @ [CHR 0x0D]
   \<and> files (snd (make_commit demo_extern [''repo''] (at_time 2024 1 1 15 59 59 999999) ''WIP''
                 [''repo'', ''history.txt''] 2
                 (demo_world\<lparr>files := [[''repo'', ''history.txt'']
                                           \<mapsto> concat (replicate 40 [CHR 0x0D, CHR 0x0A])]\<rparr>)))
     [''repo'', ''history.txt'']
   = Some (replicate 40 CHR 0x0A @ ''2024-01-01 15:59:59 | commit #2'' @ [CHR 0x0A])
   \<and> length (replicate 40 CHR 0x0A @ ''2024-01-01 15:59:59 | commit #2'' @ [CHR 0x0A])
       < length (concat (replicate 40 [CHR 0x0D, CHR 0x0A]))"
proof -
  have pairs: "universal_newlines (concat (replicate n [CHR 0x0D, CHR 0x0A])) = replicate n CHR 0x0A"
    for n
    by (induction n) simp_all
  have l: "length (concat (replicate n [CHR 0x0D, CHR 0x0A])) = 2 * n" for n
    by (induction n) simp_all
  show ?thesis
    using demo_lines(2)
    by (simp add: make_commit_unfold Let_def read_text_def pairs l log_line_def
        del: show_nat.simps)
qed

text \<open>
  Claim C5. When the commit command of a planned commit returns a nonzero exit code,
  \<open>make_commit\<close> returns false after it has printed the captured diagnostic output to
  the error stream, and the line it appended to the log file stays. The loop over the
  timestamps of a day goes on whatever the commands return: every timestamp gets its
  line and exactly one add call and one commit call, and the counter advances by the
  number of timestamps.
\<close>

theorem failed_commit_is_reported_and_skipped:
  "(returncode (commit_result X cwd t message data_path index w) \<noteq> 0 \<longrightarrow>
      \<not> fst (make_commit X cwd t message data_path index w)
      \<and> err (snd (make_commit X cwd t message data_path index w))
          = err w @ [stderr (commit_result X cwd t message data_path index w)]
      \<and> read_text (snd (make_commit X cwd t message data_path index w)) data_path
          = read_text w data_path @ log_line t index)
   \<and> fst (commit_loop X cwd data_path ts commit_count w) = commit_count + int (length ts)
   \<and> read_text (snd (commit_loop X cwd data_path ts commit_count w)) data_path
        = read_text w data_path
            @ concat (map (\<lambda>k. log_line (ts ! k) (commit_count + 1 + int k)) [0..<length ts])
   \<and> git_calls (snd (commit_loop X cwd data_path ts commit_count w))
        = git_calls w
            @ concat (map2 (commit_calls cwd data_path (os_environ w))
                        (fst (choices X (rng w) (length ts))) ts)"
proof -
  obtain cc' w' where cl: "commit_loop X cwd data_path ts commit_count w = (cc', w')"
    by (cases "commit_loop X cwd data_path ts commit_count w")
  note ce = commit_loop_effect [OF cl]
  have "files (snd (make_commit X cwd t message data_path index w)) data_path
          = Some (read_text w data_path @ log_line t index)"
    by (simp add: make_commit_unfold Let_def)
  then have mc: "read_text (snd (make_commit X cwd t message data_path index w)) data_path
                   = read_text w data_path @ log_line t index"
    by (rule read_text_appended)
  have "returncode (commit_result X cwd t message data_path index w) \<noteq> 0 \<longrightarrow>
          \<not> fst (make_commit X cwd t message data_path index w)
          \<and> err (snd (make_commit X cwd t message data_path index w))
              = err w @ [stderr (commit_result X cwd t message data_path index w)]"
    by (simp add: make_commit_unfold Let_def)
  then show ?thesis
    using ce cl mc by (simp add: log_lines_nth)
qed

theorem failed_commit_is_reported_and_skipped_witness:
  "returncode (commit_result demo_extern [''repo''] (at_time 2024 1 1 8 0 0 0) ''WIP''
                 [''repo'', ''history.txt''] 1 demo_world) \<noteq> 0
   \<and> \<not> fst (make_commit demo_extern [''repo''] (at_time 2024 1 1 8 0 0 0) ''WIP''
                [''repo'', ''history.txt''] 1 demo_world)
   \<and> err (snd (make_commit demo_extern [''repo''] (at_time 2024 1 1 8 0 0 0) ''WIP''
                  [''repo'', ''history.txt''] 1 demo_world)) = [''fatal'']
   \<and> fst (commit_loop demo_extern [''repo''] [''repo'', ''history.txt'']
             [at_time 2024 1 1 8 0 0 0, at_time 2024 1 1 23 59 59 999999] 0 demo_world) = 2"
proof -
  have r: "returncode (commit_result demo_extern [''repo''] (at_time 2024 1 1 8 0 0 0) ''WIP''
                         [''repo'', ''history.txt''] 1 demo_world) = 1"
    "stderr (commit_result demo_extern [''repo''] (at_time 2024 1 1 8 0 0 0) ''WIP''
               [''repo'', ''history.txt''] 1 demo_world) = ''fatal''"
    by (simp_all add: commit_result_def demo_extern_def demo_git_def commit_call_def)
  show ?thesis
    using failed_commit_is_reported_and_skipped [of demo_extern "[''repo'']"
        "at_time 2024 1 1 8 0 0 0" "''WIP''" "[''repo'', ''history.txt'']" 1 demo_world
        "[at_time 2024 1 1 8 0 0 0, at_time 2024 1 1 23 59 59 999999]" 0] r
    by (simp add: demo_world_def)
qed

lemma main_exit_code:
  assumes "fst (main X a w) = Inr code"
  shows "(code = 1 \<and> (resolve X (directory a) \<notin> dirs w
                   \<or> (\<not> dry_run a \<and> is_git_repo (resolve X (directory a)) w
                       \<and> strip (stdout (git_exec X w
                             (git_call_of [''status'', ''--short''] (resolve X (directory a))))) \<noteq> [])))
     \<or> (code = 0 \<and> resolve X (directory a) \<in> dirs w
         \<and> (dry_run a \<or> \<not> is_git_repo (resolve X (directory a)) w
             \<or> strip (stdout (git_exec X w
                   (git_call_of [''status'', ''--short''] (resolve X (directory a))))) = []))"
proof -
  let ?cwd = "resolve X (directory a)"
  consider (missing) "?cwd \<notin> dirs w" | (dry) "?cwd \<in> dirs w" "dry_run a"
    | (run) "?cwd \<in> dirs w" "\<not> dry_run a"
    by blast
  then show ?thesis
  proof cases
    case missing
    then show ?thesis using assms by (simp add: main_missing)
  next
    case dry
    then show ?thesis using assms by (simp add: main_dry split: sum.splits)
  next
    case run
    obtain stop w1 where pf: "preflight X ?cwd w = (stop, w1)"
      by (cases "preflight X ?cwd w")
    have st: "stop \<longleftrightarrow> is_git_repo ?cwd w
                \<and> strip (stdout (git_exec X w (git_call_of [''status'', ''--short''] ?cwd))) \<noteq> []"
      using pf by (auto simp: preflight_unfold split: if_splits)
    show ?thesis
    proof (cases stop)
      case True
      then show ?thesis
        using run pf st assms main_stopped [of X a w w1] by simp
    next
      case False
      have "code = 0"
        using run pf False assms main_run [of X a w w1]
        by (auto split: sum.splits prod.splits)
      then show ?thesis
        using run st False by auto
    qed
  qed
qed

text \<open>
  Claim C4. A run whose target directory does not exist ends with exit code 1 before
  any work: nothing but the error message is added to the world. A run that is not dry,
  on a directory with version-control metadata whose status query reports pending
  changes, ends with exit code 1 after that one query, before any commit. Every other
  run that completes (the dry run and the clean paths) exits with 0.
\<close>

theorem preflight_failures_exit_one:
  "(resolve X (directory a) \<notin> dirs w \<longrightarrow>
      main X a w
        = (Inr 1, w\<lparr>err := err w @ [''Error: directory does not exist: ''
                                       @ path_str (resolve X (directory a))]\<rparr>))
   \<and> (resolve X (directory a) \<in> dirs w \<and> \<not> dry_run a
        \<and> is_git_repo (resolve X (directory a)) w
        \<and> strip (stdout (git_exec X w
              \<lparr>gc_argv = [''git'', ''status'', ''--short''], gc_cwd = resolve X (directory a),
               gc_env = None\<rparr>)) \<noteq> [] \<longrightarrow>
      main X a w
        = (Inr 1, w\<lparr>git_calls := git_calls w
                       @ [\<lparr>gc_argv = [''git'', ''status'', ''--short''],
                           gc_cwd = resolve X (directory a), gc_env = None\<rparr>],
                     err := err w @ [dirty_line]\<rparr>))
   \<and> (\<forall>code. fst (main X a w) = Inr code \<longrightarrow>
        (if resolve X (directory a) \<notin> dirs w
            \<or> (\<not> dry_run a \<and> is_git_repo (resolve X (directory a)) w
                \<and> strip (stdout (git_exec X w
                      \<lparr>gc_argv = [''git'', ''status'', ''--short''],
                       gc_cwd = resolve X (directory a), gc_env = None\<rparr>)) \<noteq> [])
         then code = 1 else code = 0))"
proof (intro conjI impI allI)
  assume "resolve X (directory a) \<notin> dirs w"
  then show "main X a w
        = (Inr 1, w\<lparr>err := err w @ [''Error: directory does not exist: ''
                                       @ path_str (resolve X (directory a))]\<rparr>)"
    by (simp add: main_missing print_err_def)
next
  assume "resolve X (directory a) \<in> dirs w \<and> \<not> dry_run a
        \<and> is_git_repo (resolve X (directory a)) w
        \<and> strip (stdout (git_exec X w
              \<lparr>gc_argv = [''git'', ''status'', ''--short''], gc_cwd = resolve X (directory a),
               gc_env = None\<rparr>)) \<noteq> []"
  then show "main X a w
        = (Inr 1, w\<lparr>git_calls := git_calls w
                       @ [\<lparr>gc_argv = [''git'', ''status'', ''--short''],
                           gc_cwd = resolve X (directory a), gc_env = None\<rparr>],
                     err := err w @ [dirty_line]\<rparr>)"
    by (simp add: main_def Let_def preflight_unfold git_call_of_def)
next
  fix code
  assume "fst (main X a w) = Inr code"
  from main_exit_code [OF this]
  show "if resolve X (directory a) \<notin> dirs w
            \<or> (\<not> dry_run a \<and> is_git_repo (resolve X (directory a)) w
                \<and> strip (stdout (git_exec X w
                      \<lparr>gc_argv = [''git'', ''status'', ''--short''],
                       gc_cwd = resolve X (directory a), gc_env = None\<rparr>)) \<noteq> [])
         then code = 1 else code = 0"
    by (auto simp: git_call_of_def)
qed

theorem preflight_failures_exit_one_witness:
  "main demo_extern demo_args (demo_world\<lparr>dirs := {}\<rparr>)
     = (Inr 1, demo_world\<lparr>dirs := {}, err := [''Error: directory does not exist: /repo'']\<rparr>)
   \<and> main demo_extern demo_args (demo_world\<lparr>dirs := {[''repo''], [''repo'', ''.git'']}\<rparr>)
     = (Inr 1, demo_world\<lparr>dirs := {[''repo''], [''repo'', ''.git'']},
                 git_calls := [\<lparr>gc_argv = [''git'', ''status'', ''--short''],
                                gc_cwd = [''repo''], gc_env = None\<rparr>],
                 err := [dirty_line]\<rparr>)
   \<and> fst (main demo_extern (demo_args\<lparr>dry_run := True\<rparr>) demo_world) = Inr 0"
proof (intro conjI)
  have r: "resolve demo_extern (directory demo_args) = [''repo'']"
    "resolve demo_extern ''repo'' = [''repo'']"
    by (simp_all add: demo_extern_def demo_args_def)
  show "main demo_extern demo_args (demo_world\<lparr>dirs := {}\<rparr>)
     = (Inr 1, demo_world\<lparr>dirs := {}, err := [''Error: directory does not exist: /repo'']\<rparr>)"
    using preflight_failures_exit_one [of demo_extern demo_args "demo_world\<lparr>dirs := {}\<rparr>",
        THEN conjunct1]
    by (simp add: r demo_world_def path_str_def)
  have s: "strip ('' M notes.txt'' @ [CHR 0x0A]) \<noteq> []"
    by code_simp
  have g: "stdout (git_exec demo_extern w
             \<lparr>gc_argv = [''git'', ''status'', ''--short''], gc_cwd = c, gc_env = None\<rparr>)
           = '' M notes.txt'' @ [CHR 0x0A]" for w c
    by (simp add: demo_extern_def demo_git_def)
  show "main demo_extern demo_args (demo_world\<lparr>dirs := {[''repo''], [''repo'', ''.git'']}\<rparr>)
     = (Inr 1, demo_world\<lparr>dirs := {[''repo''], [''repo'', ''.git'']},
                 git_calls := [\<lparr>gc_argv = [''git'', ''status'', ''--short''],
                                gc_cwd = [''repo''], gc_env = None\<rparr>],
                 err := [dirty_line]\<rparr>)"
    using preflight_failures_exit_one [of demo_extern demo_args
        "demo_world\<lparr>dirs := {[''repo''], [''repo'', ''.git'']}\<rparr>",
        THEN conjunct2, THEN conjunct1] s
    by (simp add: r g demo_world_def demo_args_def is_git_repo_def path_join_def)
  show "fst (main demo_extern (demo_args\<lparr>dry_run := True\<rparr>) demo_world) = Inr 0"
    by (simp add: main_dry demo_extern_def demo_args_def demo_world_def new_year_date_def
        MINYEAR_def MAXYEAR_def)
qed

lemma main_run_calls:
  assumes dir: "resolve X (directory a) \<in> dirs w" and nd: "\<not> dry_run a"
    and pf: "preflight X (resolve X (directory a)) w = (False, w1)"
  shows "\<exists>rest. git_calls (snd (main X a w)) = git_calls w1 @ rest"
proof (cases "new_year_date (start_year a)")
  case (Inl e)
  then show ?thesis
    using main_run [OF dir nd pf] by (simp add: write_text_def)
next
  case (Inr sd)
  then show ?thesis
    using main_run_effect(2) [OF dir nd pf] by blast
qed

text \<open>
  Claim C6, as amended. In a run that is not dry, on a directory without
  version-control metadata, the bootstrap runs \<open>git init\<close>; if no \<open>README.md\<close> exists it
  then writes the default one, stages it and makes one initial commit, all without an
  environment of their own (so with no timestamp override); if a \<open>README.md\<close> exists,
  \<open>git init\<close> is all the bootstrap does. The calls of the rest of the run come after.
\<close>

theorem bootstrap_of_a_fresh_directory:
  "\<not> is_git_repo cwd w \<longrightarrow>
     preflight X cwd w = (False, init_repo X cwd w)
     \<and> init_repo X cwd w =
         (if \<not> path_exists w (path_join cwd ''README.md'')
          then w\<lparr>files := (files w)(path_join cwd ''README.md'' \<mapsto> readme_text),
                 git_calls := git_calls w
                   @ [\<lparr>gc_argv = [''git'', ''init''], gc_cwd = cwd, gc_env = None\<rparr>,
                      \<lparr>gc_argv = [''git'', ''add'', ''README.md''], gc_cwd = cwd, gc_env = None\<rparr>,
                      \<lparr>gc_argv = [''git'', ''commit'', ''-m'', ''Initial commit''], gc_cwd = cwd,
                       gc_env = None\<rparr>]\<rparr>
          else w\<lparr>git_calls := git_calls w
                   @ [\<lparr>gc_argv = [''git'', ''init''], gc_cwd = cwd, gc_env = None\<rparr>]\<rparr>)
     \<and> (cwd = resolve X (directory a) \<and> cwd \<in> dirs w \<and> \<not> dry_run a \<longrightarrow>
          (\<exists>rest. git_calls (snd (main X a w)) = git_calls (init_repo X cwd w) @ rest))"
proof (intro impI conjI)
  assume n: "\<not> is_git_repo cwd w"
  then show pf: "preflight X cwd w = (False, init_repo X cwd w)"
    by (simp add: preflight_unfold)
  show "init_repo X cwd w =
         (if \<not> path_exists w (path_join cwd ''README.md'')
          then w\<lparr>files := (files w)(path_join cwd ''README.md'' \<mapsto> readme_text),
                 git_calls := git_calls w
                   @ [\<lparr>gc_argv = [''git'', ''init''], gc_cwd = cwd, gc_env = None\<rparr>,
                      \<lparr>gc_argv = [''git'', ''add'', ''README.md''], gc_cwd = cwd, gc_env = None\<rparr>,
                      \<lparr>gc_argv = [''git'', ''commit'', ''-m'', ''Initial commit''], gc_cwd = cwd,
                       gc_env = None\<rparr>]\<rparr>
          else w\<lparr>git_calls := git_calls w
                   @ [\<lparr>gc_argv = [''git'', ''init''], gc_cwd = cwd, gc_env = None\<rparr>]\<rparr>)"
    by (simp add: init_repo_unfold git_call_of_def)
  assume h: "cwd = resolve X (directory a) \<and> cwd \<in> dirs w \<and> \<not> dry_run a"
  then have "resolve X (directory a) \<in> dirs w" "\<not> dry_run a"
    "preflight X (resolve X (directory a)) w = (False, init_repo X cwd w)"
    using pf by auto
  from main_run_calls [OF this]
  show "\<exists>rest. git_calls (snd (main X a w)) = git_calls (init_repo X cwd w) @ rest" .
qed

theorem bootstrap_of_a_fresh_directory_witness:
  "init_repo demo_extern [''repo''] demo_world
     = demo_world\<lparr>files := [[''repo'', ''README.md''] \<mapsto> readme_text],
          git_calls :=
            [\<lparr>gc_argv = [''git'', ''init''], gc_cwd = [''repo''], gc_env = None\<rparr>,
             \<lparr>gc_argv = [''git'', ''add'', ''README.md''], gc_cwd = [''repo''], gc_env = None\<rparr>,
             \<lparr>gc_argv = [''git'', ''commit'', ''-m'', ''Initial commit''], gc_cwd = [''repo''],
              gc_env = None\<rparr>]\<rparr>"
  using bootstrap_of_a_fresh_directory [of "[''repo'']" demo_world demo_extern demo_args]
  by (simp add: is_git_repo_def path_exists_def path_join_def demo_world_def)

text \<open>
  The claim as it was stated fails where a \<open>README.md\<close> is already there: the whole
  run (here with no day to fill) calls \<open>git init\<close> and nothing else, so nothing is
  staged and no initial commit is made.
\<close>

theorem bootstrap_with_readme_counterexample:
  "\<not> is_git_repo [''repo''] (demo_world\<lparr>files := [[''repo'', ''README.md''] \<mapsto> ''mine'']\<rparr>)
   \<and> git_calls (snd (main demo_extern (demo_args\<lparr>max_days := Some 0\<rparr>)
                   (demo_world\<lparr>files := [[''repo'', ''README.md''] \<mapsto> ''mine'']\<rparr>)))
       = [\<lparr>gc_argv = [''git'', ''init''], gc_cwd = [''repo''], gc_env = None\<rparr>]"
proof -
  let ?w = "demo_world\<lparr>files := [[''repo'', ''README.md''] \<mapsto> ''mine'']\<rparr>"
  let ?a = "demo_args\<lparr>max_days := Some 0\<rparr>"
  have n: "\<not> is_git_repo [''repo''] ?w"
    by (simp add: is_git_repo_def path_join_def demo_world_def)
  have r: "resolve demo_extern (directory ?a) = [''repo'']" "[''repo''] \<in> dirs ?w"
    "\<not> dry_run ?a"
    by (simp_all add: demo_extern_def demo_args_def demo_world_def)
  have r0: "resolve demo_extern s = [s]" for s
    by (simp add: demo_extern_def)
  have i: "init_repo demo_extern [''repo''] ?w
             = ?w\<lparr>git_calls := [\<lparr>gc_argv = [''git'', ''init''], gc_cwd = [''repo''],
                                   gc_env = None\<rparr>]\<rparr>"
    by (simp add: init_repo_unfold git_call_of_def path_exists_def path_join_def demo_world_def)
  have pf: "preflight demo_extern (resolve demo_extern (directory ?a)) ?w
              = (False, init_repo demo_extern [''repo''] ?w)"
    using n by (simp add: preflight_unfold r0 demo_args_def)
  have sd: "new_year_date (start_year ?a) = Inr \<lparr>year = 2024, month = 1, day = 1\<rparr>"
    by (simp add: new_year_date_def demo_args_def MINYEAR_def MAXYEAR_def)
  have ps: "planned_stamps demo_extern ?a ?w = []"
    using n r(2,3) pf sd
    by (simp add: planned_stamps_def r(1) total_days_of_def date_diff_days_def ymd_to_ord_def
        demo_args_def demo_world_def)
  have d: "resolve demo_extern (directory ?a) \<in> dirs ?w"
    by (simp add: demo_extern_def demo_args_def demo_world_def)
  have "git_calls (snd (main demo_extern ?a ?w))
          = git_calls (init_repo demo_extern [''repo''] ?w)"
    using main_run_effect(2) [OF d r(3) pf sd] by (simp add: ps)
  then show ?thesis
    using n i by simp
qed




lemma main_plan_printed:
  assumes dir: "resolve X (directory a) \<in> dirs w"
    and pf: "dry_run a \<or> \<not> fst (preflight X (resolve X (directory a)) w)"
    and sd: "new_year_date (start_year a) = Inr sd"
  shows "\<exists>extra. out (snd (main X a w))
           = out w @ plan_line (total_days_of a (clock_today w) sd)
                       (total_days_of a (clock_today w) sd * commits_per_day a)
                       (commits_per_day a) # extra"
proof (cases "dry_run a")
  case True
  then show ?thesis
    using dir sd by (simp add: main_dry)
next
  case False
  let ?cwd = "resolve X (directory a)"
  let ?dp = "path_join ?cwd ''history.txt''"
  obtain w1 where p1: "preflight X ?cwd w = (False, w1)"
    using pf False by (cases "preflight X ?cwd w") auto
  note fr = preflight_frame [OF p1]
  let ?w4 = "loop_start X a sd w1"
  obtain res w5 where dl:
    "day_loop X ?cwd ?dp sd (commits_per_day a)
       (map int [0..<nat (total_days_of a (clock_today w1) sd)]) (0, 0) ?w4 = (res, w5)"
    by (cases "day_loop X ?cwd ?dp sd (commits_per_day a)
       (map int [0..<nat (total_days_of a (clock_today w1) sd)]) (0, 0) ?w4")
  from day_loop_effect [OF dl] obtain extra where e: "out w5 = out ?w4 @ extra"
    by blast
  have o4: "out ?w4 = out w @ [plan_line (total_days_of a (clock_today w) sd)
                       (total_days_of a (clock_today w) sd * commits_per_day a)
                       (commits_per_day a)]"
    using fr by (simp add: loop_start_def Let_def print_out_def write_text_def)
  have "\<exists>more. out (snd (main X a w)) = out w5 @ more"
    using main_run [OF dir False p1] sd dl
    by (auto simp: print_out_def split: sum.splits)
  then show ?thesis
    using e o4 by auto
qed

text \<open>
  Claim C9. With start year 2024, \<open>--max-days 1\<close> and \<open>--commits-per-day 3\<close>, a run that
  gets to its plan (the directory exists; the run is dry or passes the pre-flight
  checks) on a day not before 1 January 2024 prints \<open>Planned: 1 days, 3 commits\<close>, and
  the three timestamps of that single day are 08:00:00.000000, 15:59:59.999999 (the
  midpoint 15:59:59.9999995, rounded to a whole microsecond) and 23:59:59.999999.
\<close>

theorem example_one_day_three_commits:
  assumes "start_year a = 2024" and "max_days a = Some 1" and "commits_per_day a = 3"
    and "resolve X (directory a) \<in> dirs w"
    and "dry_run a \<or> \<not> fst (preflight X (resolve X (directory a)) w)"
    and "0 \<le> date_diff_days (clock_today w) \<lparr>year = 2024, month = 1, day = 1\<rparr>"
  shows "(\<exists>extra. out (snd (main X a w))
            = out w @ ''Planned: 1 days, 3 commits (3/day)'' # extra)
         \<and> commits_for_day (combine_midnight \<lparr>year = 2024, month = 1, day = 1\<rparr>) 3
             = Inr [\<lparr>year = 2024, month = 1, day = 1,
                     hour = 8, minute = 0, second = 0, microsecond = 0\<rparr>,
                    \<lparr>year = 2024, month = 1, day = 1,
                     hour = 15, minute = 59, second = 59, microsecond = 999999\<rparr>,
                    \<lparr>year = 2024, month = 1, day = 1,
                     hour = 23, minute = 59, second = 59, microsecond = 999999\<rparr>]
         \<and> (\<not> dry_run a \<longrightarrow>
              planned_stamps X a w
                = [\<lparr>year = 2024, month = 1, day = 1,
                     hour = 8, minute = 0, second = 0, microsecond = 0\<rparr>,
                    \<lparr>year = 2024, month = 1, day = 1,
                     hour = 15, minute = 59, second = 59, microsecond = 999999\<rparr>,
                    \<lparr>year = 2024, month = 1, day = 1,
                     hour = 23, minute = 59, second = 59, microsecond = 999999\<rparr>])"
proof -
  have p: "plan_line 1 3 3 = ''Planned: 1 days, 3 commits (3/day)''"
    by code_simp
  have sd: "new_year_date (start_year a) = Inr \<lparr>year = 2024, month = 1, day = 1\<rparr>"
    using assms(1) by (simp add: new_year_date_def MINYEAR_def MAXYEAR_def)
  have td: "total_days_of a (clock_today w) \<lparr>year = 2024, month = 1, day = 1\<rparr> = 1"
    using assms(2,6) by (simp add: total_days_of_def)
  have one: "map int [0..<nat 1] = [0]"
    by simp
  have z: "date_add_days \<lparr>year = 2024, month = 1, day = 1\<rparr> 0
             = Inr \<lparr>year = 2024, month = 1, day = 1\<rparr>"
    by (simp add: date_add_days_def normalize_valid valid_demo_days(3) MINYEAR_def MAXYEAR_def
        bind_res_def)
  have day: "commits_for_day (combine_midnight \<lparr>year = 2024, month = 1, day = 1\<rparr>) 3
             = Inr [\<lparr>year = 2024, month = 1, day = 1,
                     hour = 8, minute = 0, second = 0, microsecond = 0\<rparr>,
                    \<lparr>year = 2024, month = 1, day = 1,
                     hour = 15, minute = 59, second = 59, microsecond = 999999\<rparr>,
                    \<lparr>year = 2024, month = 1, day = 1,
                     hour = 23, minute = 59, second = 59, microsecond = 999999\<rparr>]"
    using demo_day1 by (simp add: at_time_def)
  have "\<exists>extra. out (snd (main X a w))
            = out w @ ''Planned: 1 days, 3 commits (3/day)'' # extra"
    using main_plan_printed [OF assms(4,5) sd] assms(3) by (simp add: td p)
  moreover have "planned_stamps X a w
                = [\<lparr>year = 2024, month = 1, day = 1,
                     hour = 8, minute = 0, second = 0, microsecond = 0\<rparr>,
                    \<lparr>year = 2024, month = 1, day = 1,
                     hour = 15, minute = 59, second = 59, microsecond = 999999\<rparr>,
                    \<lparr>year = 2024, month = 1, day = 1,
                     hour = 23, minute = 59, second = 59, microsecond = 999999\<rparr>]"
    if "\<not> dry_run a"
    using that assms(3,4,5) sd
    by (simp add: planned_stamps_run td one z day)
  ultimately show ?thesis
    using day by blast
qed

theorem example_one_day_three_commits_witness:
  "(\<exists>extra. out (snd (main demo_extern (demo_args\<lparr>max_days := Some 1\<rparr>) demo_world))
      = ''Planned: 1 days, 3 commits (3/day)'' # extra)
   \<and> planned_stamps demo_extern (demo_args\<lparr>max_days := Some 1\<rparr>) demo_world
       = [at_time 2024 1 1 8 0 0 0, at_time 2024 1 1 15 59 59 999999,
          at_time 2024 1 1 23 59 59 999999]"
proof -
  have d: "date_diff_days \<lparr>year = 2024, month = 1, day = 2\<rparr> \<lparr>year = 2024, month = 1, day = 1\<rparr> = 1"
    by (simp add: date_diff_days_def ymd_to_ord_def)
  have pf: "\<not> fst (preflight demo_extern [''repo''] demo_world)"
    by (simp add: preflight_unfold is_git_repo_def path_join_def demo_world_def)
  have h: "start_year (demo_args\<lparr>max_days := Some 1\<rparr>) = 2024"
    "max_days (demo_args\<lparr>max_days := Some 1\<rparr>) = Some 1"
    "commits_per_day (demo_args\<lparr>max_days := Some 1\<rparr>) = 3"
    "resolve demo_extern (directory (demo_args\<lparr>max_days := Some 1\<rparr>)) \<in> dirs demo_world"
    "dry_run (demo_args\<lparr>max_days := Some 1\<rparr>)
       \<or> \<not> fst (preflight demo_extern
                  (resolve demo_extern (directory (demo_args\<lparr>max_days := Some 1\<rparr>))) demo_world)"
    "0 \<le> date_diff_days (clock_today demo_world) \<lparr>year = 2024, month = 1, day = 1\<rparr>"
    "\<not> dry_run (demo_args\<lparr>max_days := Some 1\<rparr>)"
    using pf by (simp_all add: demo_args_def demo_extern_def demo_world_def d)
  show ?thesis
    using example_one_day_three_commits [OF h(1-6)] h(7)
    by (simp add: at_time_def demo_world_def)
qed

text \<open>
  Claim C8. Two runs with the same arguments (the seed among them), the same random
  generator and the same date on the clock, which both get past the pre-flight checks,
  pass the same sequence of messages to their backfill commits, whatever their
  worlds hold and their external commands answer. The pool has 10 phrases; the
  message of the \<open>k\<close>-th commit is the phrase the generator, seeded with \<open>--seed\<close>, draws
  \<open>k\<close>-th from the pool, followed by the timestamp of the commit, formatted to the
  minute, in parentheses.
\<close>

theorem message_sequence_is_fixed_by_the_seed:
  assumes "seed_rng X1 = seed_rng X2" and "randbelow X1 = randbelow X2"
    and "clock_today w1 = clock_today w2"
    and "resolve X1 (directory a) \<in> dirs w1" and "resolve X2 (directory a) \<in> dirs w2"
    and "\<not> fst (preflight X1 (resolve X1 (directory a)) w1)"
    and "\<not> fst (preflight X2 (resolve X2 (directory a)) w2)"
    and "\<And>r. fst (randbelow X1 r (length messages)) < length messages"
  shows "backfill_messages X1 a w1 = backfill_messages X2 a w2
         \<and> length messages = 10
         \<and> set (fst (choices X1 (seed_rng X1 (seed a)) (length (planned_stamps X1 a w1))))
             \<subseteq> set messages
         \<and> backfill_messages X1 a w1
             = map2 (\<lambda>phrase t. phrase @ '' ('' @ strftime_minutes t @ '')'')
                 (fst (choices X1 (seed_rng X1 (seed a)) (length (planned_stamps X1 a w1))))
                 (planned_stamps X1 a w1)"
proof -
  have ps: "planned_stamps X1 a w1 = planned_stamps X2 a w2"
  proof (cases "dry_run a")
    case True
    then show ?thesis by (simp add: planned_stamps_def)
  next
    case False
    then show ?thesis
      using assms(4-7) by (auto simp: planned_stamps_run assms(3) split: sum.splits)
  qed
  have ch: "choices X1 r n = choices X2 r n" for r n
    using assms(2) by (rule choices_cong)
  have "backfill_messages X1 a w1 = backfill_messages X2 a w2"
    using assms(1) by (simp add: backfill_messages_eq ps ch)
  moreover have "length messages = 10"
    by (simp add: messages_def)
  moreover have "set (fst (choices X1 (seed_rng X1 (seed a)) (length (planned_stamps X1 a w1))))
             \<subseteq> set messages"
    using assms(8) by (rule choices_in_pool)
  moreover have "backfill_messages X1 a w1
             = map2 (\<lambda>phrase t. phrase @ '' ('' @ strftime_minutes t @ '')'')
                 (fst (choices X1 (seed_rng X1 (seed a)) (length (planned_stamps X1 a w1))))
                 (planned_stamps X1 a w1)"
    unfolding backfill_messages_eq
    by (rule arg_cong [where f = "\<lambda>f. map2 f _ _"]) (simp add: fun_eq_iff commit_message_def)
  ultimately show ?thesis
    by blast
qed

theorem message_sequence_is_fixed_by_the_seed_witness:
  "backfill_messages demo_extern demo_args demo_world
     = backfill_messages quiet_extern demo_args
         (demo_world\<lparr>dirs := {[''repo''], [''repo'', ''.git'']},
                     files := [[''repo'', ''history.txt''] \<mapsto> ''older line'']\<rparr>)
   \<and> backfill_messages demo_extern demo_args demo_world
     = [''Optimize (2024-01-01 08:00)'', ''Update config (2024-01-01 15:59)'',
        ''Add tests (2024-01-01 23:59)'', ''Cleanup (2024-01-02 08:00)'',
        ''Minor fix (2024-01-02 15:59)'', ''Refactor module (2024-01-02 23:59)'']"
proof -
  let ?w2 = "demo_world\<lparr>dirs := {[''repo''], [''repo'', ''.git'']},
                     files := [[''repo'', ''history.txt''] \<mapsto> ''older line'']\<rparr>"
  have r: "resolve demo_extern s = [s]" "resolve quiet_extern s = [s]" for s
    by (simp_all add: demo_extern_def quiet_extern_def)
  have s: "strip [] = []"
    by (simp add: strip_def)
  have h: "seed_rng demo_extern = seed_rng quiet_extern"
    "randbelow demo_extern = randbelow quiet_extern"
    "clock_today demo_world = clock_today ?w2"
    "resolve demo_extern (directory demo_args) \<in> dirs demo_world"
    "resolve quiet_extern (directory demo_args) \<in> dirs ?w2"
    "\<not> fst (preflight demo_extern (resolve demo_extern (directory demo_args)) demo_world)"
    "\<not> fst (preflight quiet_extern (resolve quiet_extern (directory demo_args)) ?w2)"
    "\<And>r. fst (randbelow demo_extern r (length messages)) < length messages"
    by (simp_all add: r s preflight_unfold is_git_repo_def path_join_def demo_args_def
        demo_world_def quiet_extern_def demo_extern_def messages_def)
  have c: "fst (choices demo_extern (seed_rng demo_extern (seed demo_args)) 6)
             = [''Optimize'', ''Update config'', ''Add tests'', ''Cleanup'', ''Minor fix'',
                ''Refactor module'']"
    by code_simp
  have m: "strftime_minutes (at_time 2024 1 1 8 0 0 0) = ''2024-01-01 08:00''"
    "strftime_minutes (at_time 2024 1 1 15 59 59 999999) = ''2024-01-01 15:59''"
    "strftime_minutes (at_time 2024 1 1 23 59 59 999999) = ''2024-01-01 23:59''"
    "strftime_minutes (at_time 2024 1 2 8 0 0 0) = ''2024-01-02 08:00''"
    "strftime_minutes (at_time 2024 1 2 15 59 59 999999) = ''2024-01-02 15:59''"
    "strftime_minutes (at_time 2024 1 2 23 59 59 999999) = ''2024-01-02 23:59''"
    by code_simp+
  note t = message_sequence_is_fixed_by_the_seed [OF h]
  have len: "length (planned_stamps demo_extern demo_args demo_world) = 6"
    by (simp add: demo_planned_stamps)
  have "backfill_messages demo_extern demo_args demo_world
          = map2 (\<lambda>phrase t. phrase @ '' ('' @ strftime_minutes t @ '')'')
              [''Optimize'', ''Update config'', ''Add tests'', ''Cleanup'', ''Minor fix'',
               ''Refactor module'']
              (planned_stamps demo_extern demo_args demo_world)"
    using t [THEN conjunct2, THEN conjunct2, THEN conjunct2] unfolding len c .
  then have "backfill_messages demo_extern demo_args demo_world
     = [''Optimize (2024-01-01 08:00)'', ''Update config (2024-01-01 15:59)'',
        ''Add tests (2024-01-01 23:59)'', ''Cleanup (2024-01-02 08:00)'',
        ''Minor fix (2024-01-02 15:59)'', ''Refactor module (2024-01-02 23:59)'']"
    by (simp add: demo_planned_stamps m)
  then show ?thesis
    using t [THEN conjunct1] by simp
qed

subsection \<open>Rounding to a float: error, monotonicity, and the offsets of a day\<close>

lemma pow2_powi: "pow2 k = 2 powi k"
  by (simp add: pow2_def power_int_def power_one_over inverse_eq_divide)

lemma pow2_pos [simp]: "0 < pow2 k"
  by (simp add: pow2_powi)

lemma pow2_nonneg [simp]: "0 \<le> pow2 k"
  by (simp add: pow2_powi)

lemma pow2_nonzero [simp]: "pow2 k \<noteq> 0"
  by (simp add: pow2_powi)

lemma pow2_add: "pow2 (a + b) = pow2 a * pow2 b"
  by (simp add: pow2_powi power_int_add)

lemma pow2_diff: "pow2 (a - b) = pow2 a / pow2 b"
  by (simp add: pow2_powi power_int_diff)

lemma pow2_mono: "a \<le> b \<Longrightarrow> pow2 a \<le> pow2 b"
  by (simp add: pow2_powi power_int_increasing)

lemma pow2_strict_mono: "a < b \<Longrightarrow> pow2 a < pow2 b"
  by (simp add: pow2_powi power_int_strict_increasing)

lemma pow2_less_cancel: "pow2 a < pow2 b \<Longrightarrow> a < b"
  using pow2_mono [of b a] by (cases "a < b") auto

lemma pow2_nat: "0 \<le> k \<Longrightarrow> pow2 k = 2 ^ nat k"
  by (simp add: pow2_def)

lemma bitlen_pow2_bounds:
  assumes "0 < n"
  shows "pow2 (bitlen n - 1) \<le> of_int n" and "of_int n < pow2 (bitlen n)"
proof -
  from bitlen_bounds [OF assms]
  have b: "2 ^ nat (bitlen n - 1) \<le> n" "n < 2 ^ nat (bitlen n)"
    by auto
  have pos: "0 < bitlen n"
    using assms bitlen_nonneg [of n] bitlen_eq_zero_iff [of n] by linarith
  have "(of_int (2 ^ nat (bitlen n - 1)) :: rat) \<le> of_int n"
    using b(1) by (simp only: of_int_le_iff)
  then show "pow2 (bitlen n - 1) \<le> of_int n"
    using pos by (simp add: pow2_nat)
  have "(of_int n :: rat) < of_int (2 ^ nat (bitlen n))"
    using b(2) by (simp only: of_int_less_iff)
  then show "of_int n < pow2 (bitlen n)"
    using pos by (simp add: pow2_nat)
qed

lemma ilog2_bounds:
  assumes "x \<noteq> 0"
  shows "pow2 (ilog2 x) \<le> \<bar>x\<bar>" and "\<bar>x\<bar> < pow2 (ilog2 x + 1)"
proof -
  obtain n d where q: "quotient_of \<bar>x\<bar> = (n, d)"
    by (cases "quotient_of \<bar>x\<bar>")
  have d: "0 < d"
    using quotient_of_denom_pos [OF q] .
  have x: "\<bar>x\<bar> = of_int n / of_int d"
    using quotient_of_div [OF q] .
  have n: "0 < n"
  proof -
    have "0 < \<bar>x\<bar>" using assms by simp
    then have "0 < (of_int n :: rat) / of_int d" using x by simp
    then show ?thesis using d by (simp add: zero_less_divide_iff)
  qed
  define k where "k = bitlen n - bitlen d"
  have dr: "(0::rat) < of_int d" using d by simp
  have lo: "pow2 (k - 1) < \<bar>x\<bar>"
  proof -
    have "pow2 (k - 1) * of_int d < pow2 (k - 1) * pow2 (bitlen d)"
      using bitlen_pow2_bounds(2) [OF d] by simp
    also have "\<dots> = pow2 (bitlen n - 1)"
      by (simp add: pow2_add [symmetric] k_def)
    also have "\<dots> \<le> of_int n"
      using bitlen_pow2_bounds(1) [OF n] .
    finally show ?thesis
      using dr by (simp add: x pos_less_divide_eq)
  qed
  have hi: "\<bar>x\<bar> < pow2 (k + 1)"
  proof -
    have "of_int n < pow2 (bitlen n)"
      using bitlen_pow2_bounds(2) [OF n] .
    also have "\<dots> = pow2 (k + 1) * pow2 (bitlen d - 1)"
      by (simp add: pow2_add [symmetric] k_def)
    also have "\<dots> \<le> pow2 (k + 1) * of_int d"
      using bitlen_pow2_bounds(1) [OF d] by simp
    finally show ?thesis
      using dr by (simp add: x pos_divide_less_eq)
  qed
  have il: "ilog2 x = (if pow2 k \<le> \<bar>x\<bar> then k else k - 1)"
    by (simp add: ilog2_def q k_def Let_def)
  show "pow2 (ilog2 x) \<le> \<bar>x\<bar>"
    using lo by (simp add: il)
  show "\<bar>x\<bar> < pow2 (ilog2 x + 1)"
    using hi by (simp add: il)
qed

lemma ilog2_unique:
  assumes "pow2 e \<le> \<bar>x\<bar>" and "\<bar>x\<bar> < pow2 (e + 1)"
  shows "ilog2 x = e"
proof -
  have nz: "x \<noteq> 0"
    using assms(1) pow2_pos [of e] by (cases "x = 0") (simp_all del: pow2_pos)
  note b = ilog2_bounds [OF nz]
  have "pow2 e < pow2 (ilog2 x + 1)"
    using assms(1) b(2) by simp
  then have "e < ilog2 x + 1" by (rule pow2_less_cancel)
  moreover have "pow2 (ilog2 x) < pow2 (e + 1)"
    using assms(2) b(1) by simp
  then have "ilog2 x < e + 1" by (rule pow2_less_cancel)
  ultimately show ?thesis by simp
qed

lemma ilog2_zero: "ilog2 0 = - 2"
  by code_simp

lemma ilog2_less:
  assumes "\<bar>x\<bar> < pow2 k" and "- 2 < k"
  shows "ilog2 x < k"
proof (cases "x = 0")
  case True
  then show ?thesis using assms(2) by (simp add: ilog2_zero)
next
  case False
  have "pow2 (ilog2 x) < pow2 k"
    using ilog2_bounds(1) [OF False] assms(1) by simp
  then show ?thesis by (rule pow2_less_cancel)
qed

lemma ilog2_mono:
  assumes "x \<noteq> 0" and "\<bar>x\<bar> \<le> \<bar>y\<bar>"
  shows "ilog2 x \<le> ilog2 y"
proof -
  have ny: "y \<noteq> 0" using assms by auto
  have "pow2 (ilog2 x) < pow2 (ilog2 y + 1)"
    using ilog2_bounds(1) [OF assms(1)] ilog2_bounds(2) [OF ny] assms(2) by simp
  then have "ilog2 x < ilog2 y + 1" by (rule pow2_less_cancel)
  then show ?thesis by simp
qed

lemma round_half_even_err: "\<bar>of_int (round_half_even y) - y\<bar> \<le> 1 / 2"
proof -
  have "of_int \<lfloor>y\<rfloor> \<le> y" "y < of_int \<lfloor>y\<rfloor> + 1"
    by linarith+
  then show ?thesis
    by (auto simp: round_half_even_def Let_def abs_le_iff)
qed

lemma round_half_even_of_int [simp]: "round_half_even (of_int n) = n"
  by (simp add: round_half_even_def)

lemma round_half_even_numeral [simp]: "round_half_even (numeral n) = numeral n"
  using round_half_even_of_int [of "numeral n"] by simp

lemma round_half_even_mono:
  assumes "x \<le> y"
  shows "round_half_even x \<le> round_half_even y"
proof (cases "\<lfloor>x\<rfloor> = \<lfloor>y\<rfloor>")
  case True
  then show ?thesis
    using assms by (auto simp: round_half_even_def Let_def)
next
  case False
  then have "\<lfloor>x\<rfloor> + 1 \<le> \<lfloor>y\<rfloor>"
    using floor_mono [OF assms] by linarith
  moreover have "round_half_even x \<le> \<lfloor>x\<rfloor> + 1"
    by (simp add: round_half_even_def Let_def)
  moreover have "\<lfloor>y\<rfloor> \<le> round_half_even y"
    by (simp add: round_half_even_def Let_def)
  ultimately show ?thesis by linarith
qed

lemma fl_eq: "x \<noteq> 0 \<Longrightarrow> fl x = of_int (round_half_even (x / pow2 (ulp_exp x))) * pow2 (ulp_exp x)"
  by (simp add: fl_def ulp_exp_def Let_def)

lemma fl_zero [simp]: "fl 0 = 0"
  by (simp add: fl_def)

lemma fl_abs_err: "\<bar>fl x - x\<bar> \<le> pow2 (ulp_exp x) / 2"
proof (cases "x = 0")
  case True
  then show ?thesis by simp
next
  case False
  define u where "u = pow2 (ulp_exp x)"
  have u: "0 < u" by (simp add: u_def)
  have "(of_int (round_half_even (x / u)) - x / u) * u = fl x - x"
    using u by (simp add: fl_eq [OF False] u_def [symmetric] left_diff_distrib)
  then have "\<bar>fl x - x\<bar> = \<bar>(of_int (round_half_even (x / u)) - x / u) * u\<bar>"
    by simp
  also have "\<dots> = \<bar>of_int (round_half_even (x / u)) - x / u\<bar> * u"
    using u by (simp add: abs_mult)
  also have "\<dots> \<le> 1 / 2 * u"
    using round_half_even_err [of "x / u"] u by (intro mult_right_mono) auto
  finally show ?thesis by (simp add: u_def)
qed

lemma fl_rel_err:
  assumes "pow2 (- 1022) \<le> \<bar>x\<bar>"
  shows "\<bar>fl x - x\<bar> \<le> \<bar>x\<bar> * pow2 (- 53)"
proof -
  have nz: "x \<noteq> 0"
    using assms pow2_pos [of "- 1022"] by (cases "x = 0") (simp_all del: pow2_pos)
  have "pow2 (- 1022) < pow2 (ilog2 x + 1)"
    using assms ilog2_bounds(2) [OF nz] by simp
  then have "- 1022 \<le> ilog2 x"
    using pow2_less_cancel by fastforce
  then have e: "ulp_exp x = ilog2 x - 52"
    by (simp add: ulp_exp_def)
  have "pow2 (ulp_exp x) / 2 = pow2 (ilog2 x) * pow2 (- 53)"
  proof -
    have "pow2 (ilog2 x - 52) = pow2 (ilog2 x) * pow2 (- 52)"
      using pow2_add [of "ilog2 x" "- 52"] by simp
    moreover have "pow2 (- 52) / 2 = pow2 (- 53)"
      by (simp add: pow2_def)
    ultimately show ?thesis by (simp add: e)
  qed
  also have "\<dots> \<le> \<bar>x\<bar> * pow2 (- 53)"
    using ilog2_bounds(1) [OF nz] by (intro mult_right_mono) auto
  finally show ?thesis
    using fl_abs_err [of x] by simp
qed

lemma fl_nonneg: "0 \<le> x \<Longrightarrow> 0 \<le> fl x"
proof (cases "x = 0")
  case True
  then show ?thesis by simp
next
  case False
  assume "0 \<le> x"
  then have "0 \<le> x / pow2 (ulp_exp x)" by simp
  then have "round_half_even 0 \<le> round_half_even (x / pow2 (ulp_exp x))"
    by (rule round_half_even_mono)
  then show ?thesis
    by (simp add: fl_eq [OF False] round_half_even_def)
qed

lemma fl_le_next_pow2:
  assumes "0 < x"
  shows "fl x \<le> pow2 (ulp_exp x + 53)"
proof -
  have nz: "x \<noteq> 0" using assms by simp
  have "x < pow2 (ilog2 x + 1)"
    using ilog2_bounds(2) [OF nz] assms by simp
  also have "\<dots> \<le> pow2 (ulp_exp x + 53)"
    by (rule pow2_mono) (simp add: ulp_exp_def)
  also have "\<dots> = pow2 53 * pow2 (ulp_exp x)"
    by (simp add: pow2_add mult.commute)
  finally have "x / pow2 (ulp_exp x) \<le> pow2 53"
    by (simp add: pos_divide_le_eq)
  also have "pow2 53 = of_int (2 ^ 53)"
    by (simp add: pow2_def)
  finally have "round_half_even (x / pow2 (ulp_exp x)) \<le> 2 ^ 53"
    using round_half_even_mono [of "x / pow2 (ulp_exp x)" "of_int (2 ^ 53)"] by simp
  then have "(of_int (round_half_even (x / pow2 (ulp_exp x))) :: rat) \<le> of_int (2 ^ 53)"
    by (simp only: of_int_le_iff)
  then have "fl x \<le> of_int (2 ^ 53) * pow2 (ulp_exp x)"
    by (simp add: fl_eq [OF nz])
  also have "\<dots> = pow2 (ulp_exp x + 53)"
    by (simp add: pow2_add pow2_def [of 53])
  finally show ?thesis .
qed

lemma fl_ge_pow2:
  assumes "0 < x" and "- 1022 \<le> ilog2 x"
  shows "pow2 (ilog2 x) \<le> fl x"
proof -
  have nz: "x \<noteq> 0" using assms by simp
  have e: "ulp_exp x = ilog2 x - 52"
    using assms(2) by (simp add: ulp_exp_def)
  have "pow2 52 * pow2 (ulp_exp x) = pow2 (ilog2 x)"
    using pow2_add [of 52 "ilog2 x - 52"] by (simp add: e)
  also have "\<dots> \<le> x"
    using ilog2_bounds(1) [OF nz] assms(1) by simp
  finally have "pow2 52 \<le> x / pow2 (ulp_exp x)"
    by (simp add: pos_le_divide_eq)
  moreover have "pow2 52 = of_int (2 ^ 52)"
    by (simp add: pow2_def)
  ultimately have "2 ^ 52 \<le> round_half_even (x / pow2 (ulp_exp x))"
    using round_half_even_mono [of "of_int (2 ^ 52)" "x / pow2 (ulp_exp x)"] by simp
  then have "(of_int (2 ^ 52) :: rat) \<le> of_int (round_half_even (x / pow2 (ulp_exp x)))"
    by (simp only: of_int_le_iff)
  then have "of_int (2 ^ 52) * pow2 (ulp_exp x) \<le> fl x"
    by (simp add: fl_eq [OF nz])
  moreover have "of_int (2 ^ 52) * pow2 (ulp_exp x) = pow2 (ilog2 x)"
    by (simp add: e pow2_diff pow2_def [of 52])
  ultimately show ?thesis by simp
qed

lemma fl_mono:
  assumes "0 \<le> x" and "x \<le> y"
  shows "fl x \<le> fl y"
proof (cases "x = 0")
  case True
  then show ?thesis using assms fl_nonneg [of y] by simp
next
  case False
  then have x: "0 < x" and y: "0 < y" using assms by auto
  have le: "ulp_exp x \<le> ulp_exp y"
    using ilog2_mono [of x y] x assms(2) by (simp add: ulp_exp_def)
  show ?thesis
  proof (cases "ulp_exp x = ulp_exp y")
    case True
    have "x / pow2 (ulp_exp y) \<le> y / pow2 (ulp_exp y)"
      using assms(2) by (simp add: divide_right_mono)
    then have "round_half_even (x / pow2 (ulp_exp y)) \<le> round_half_even (y / pow2 (ulp_exp y))"
      by (rule round_half_even_mono)
    then have "(of_int (round_half_even (x / pow2 (ulp_exp y))) :: rat)
                 \<le> of_int (round_half_even (y / pow2 (ulp_exp y)))"
      by (simp only: of_int_le_iff)
    then show ?thesis
      using x y by (simp add: fl_eq True)
  next
    case False
    then have lt: "ulp_exp x < ulp_exp y" using le by simp
    then have ey: "- 1022 \<le> ilog2 y" "ulp_exp y = ilog2 y - 52"
      by (auto simp: ulp_exp_def max_def split: if_splits)
    have "fl x \<le> pow2 (ulp_exp x + 53)"
      using fl_le_next_pow2 [OF x] .
    also have "\<dots> \<le> pow2 (ilog2 y)"
      using lt ey(2) by (intro pow2_mono) simp
    also have "\<dots> \<le> fl y"
      using fl_ge_pow2 [OF y ey(1)] .
    finally show ?thesis .
  qed
qed

lemma ilog2_pow2: "ilog2 (pow2 k) = k"
  by (rule ilog2_unique) (simp_all add: pow2_strict_mono)

lemma fl_pow2:
  assumes "- 1022 \<le> k"
  shows "fl (pow2 k) = pow2 k"
proof -
  have e: "ulp_exp (pow2 k) = k - 52"
    using assms by (simp add: ulp_exp_def ilog2_pow2)
  have "pow2 k / pow2 (k - 52) = pow2 52"
    using pow2_diff [of k "k - 52"] by simp
  also have "\<dots> = of_int (2 ^ 52)"
    by (simp add: pow2_def)
  finally have "round_half_even (pow2 k / pow2 (k - 52)) = 2 ^ 52"
    by (simp only: round_half_even_of_int)
  then have "fl (pow2 k) = of_int (2 ^ 52) * pow2 (k - 52)"
    by (simp add: fl_eq e)
  also have "\<dots> = pow2 52 * pow2 (k - 52)"
    by (simp add: pow2_def [of 52])
  also have "\<dots> = pow2 k"
    using pow2_add [of 52 "k - 52"] by simp
  finally show ?thesis .
qed

lemma fl_one [simp]: "fl 1 = 1"
  using fl_pow2 [of 0] by (simp add: pow2_def)

lemma fl_le_pow2:
  assumes "0 \<le> x" and "x \<le> pow2 k" and "- 1022 \<le> k"
  shows "fl x \<le> pow2 k"
  using fl_mono [OF assms(1,2)] fl_pow2 [OF assms(3)] by simp

lemma finite_if_small:
  assumes "0 \<le> v" and "v < pow2 1024"
  shows "ilog2 v < 1024"
  using ilog2_less [of v 1024] assms by simp

lemma c_round_unit:
  assumes "0 \<le> r" and "r < 1"
  shows "c_round r = (if r < 1 / 2 then 0 else 1)"
proof -
  have "\<lfloor>r + 1 / 2\<rfloor> = (if r < 1 / 2 then 0 else 1)"
    using assms by (auto intro!: floor_unique)
  then show ?thesis
    using assms by (simp add: c_round_def)
qed

lemma float_seconds_to_us_nonneg:
  assumes "0 \<le> p"
  shows "float_seconds_to_us p
           = \<lfloor>p\<rfloor> * 1000000 + round_half_even (fl (1000000 * (p - of_int \<lfloor>p\<rfloor>)))"
proof -
  define f where "f = p - of_int \<lfloor>p\<rfloor>"
  define d where "d = fl (1000000 * f)"
  define l where "l = d - of_int \<lfloor>d\<rfloor>"
  have f: "0 \<le> f" "f < 1"
    by (simp_all add: f_def) linarith
  have d: "0 \<le> d"
    using f by (simp add: d_def fl_nonneg)
  have l: "0 \<le> l" "l < 1"
    by (simp_all add: l_def) linarith
  have tp: "trunc p = \<lfloor>p\<rfloor>" "trunc d = \<lfloor>d\<rfloor>"
    using assms d by (simp_all add: trunc_def)
  have par: "odd (\<lfloor>p\<rfloor> * 1000000 + \<lfloor>d\<rfloor>) = odd \<lfloor>d\<rfloor>"
    by simp
  have q34: "c_round (3 / 4) = 1" "c_round (1 / 4) = 0"
    by (simp_all add: c_round_unit)
  have whole:
    "(if l = 0 then 0
      else let w = c_round l
           in if \<bar>of_int w - l\<bar> = 1 / 2
              then let x_is_odd = (if odd (\<lfloor>p\<rfloor> * 1000000 + \<lfloor>d\<rfloor>) then 1 else 0)
                   in 2 * c_round ((l + of_int x_is_odd) * (1 / 2)) - x_is_odd
              else w)
     = round_half_even d - \<lfloor>d\<rfloor>"
  proof -
    have r: "round_half_even d - \<lfloor>d\<rfloor>
               = (if l < 1 / 2 then 0 else if 1 / 2 < l then 1 else if even \<lfloor>d\<rfloor> then 0 else 1)"
      by (simp add: round_half_even_def Let_def l_def)
    consider "l = 0" | "0 < l" "l < 1 / 2" | "l = 1 / 2" | "1 / 2 < l"
      using l by linarith
    then show ?thesis
    proof cases
      case 1
      then show ?thesis by (simp add: r)
    next
      case 2
      then show ?thesis
        using l by (simp add: r c_round_unit Let_def)
    next
      case 3
      then show ?thesis
        by (simp add: r c_round_unit Let_def par q34)
    next
      case 4
      then have "\<bar>1 - l\<bar> \<noteq> 1 / 2" using l by linarith
      with 4 show ?thesis
        using l by (simp add: r c_round_unit Let_def)
    qed
  qed
  show ?thesis
  proof (cases "f = 0")
    case True
    then obtain n where n: "p = of_int n"
      by (auto simp: f_def)
    show ?thesis
      by (simp add: n float_seconds_to_us_def Let_def trunc_def round_half_even_def)
  next
    case False
    then have pne: "p \<noteq> of_int \<lfloor>p\<rfloor>"
      by (simp add: f_def)
    show ?thesis
      using whole pne
      by (simp add: float_seconds_to_us_def Let_def tp f_def [symmetric] d_def [symmetric]
          l_def [symmetric])
  qed
qed

lemma fl_million: "fl 1000000 = 1000000"
  by code_simp

lemma round_half_even_nonneg: "0 \<le> y \<Longrightarrow> 0 \<le> round_half_even y"
  using round_half_even_mono [of 0 y] by (simp add: round_half_even_def)

lemma frac_us_bounds:
  assumes "0 \<le> f" and "f < 1"
  shows "0 \<le> round_half_even (fl (1000000 * f))"
    and "round_half_even (fl (1000000 * f)) \<le> 1000000"
proof -
  have "0 \<le> fl (1000000 * f)"
    using assms by (simp add: fl_nonneg)
  then show "0 \<le> round_half_even (fl (1000000 * f))"
    by (rule round_half_even_nonneg)
  have "fl (1000000 * f) \<le> fl 1000000"
    using assms by (intro fl_mono) auto
  then have "round_half_even (fl (1000000 * f)) \<le> round_half_even 1000000"
    unfolding fl_million by (rule round_half_even_mono)
  then show "round_half_even (fl (1000000 * f)) \<le> 1000000"
    by simp
qed

lemma float_seconds_to_us_mono:
  assumes "0 \<le> p" and "p \<le> q"
  shows "float_seconds_to_us p \<le> float_seconds_to_us q"
proof -
  have q: "0 \<le> q" using assms by simp
  have fp: "0 \<le> p - of_int \<lfloor>p\<rfloor>" "p - of_int \<lfloor>p\<rfloor> < 1"
    by linarith+
  have fq: "0 \<le> q - of_int \<lfloor>q\<rfloor>" "q - of_int \<lfloor>q\<rfloor> < 1"
    by linarith+
  show ?thesis
  proof (cases "\<lfloor>p\<rfloor> = \<lfloor>q\<rfloor>")
    case True
    have "fl (1000000 * (p - of_int \<lfloor>q\<rfloor>)) \<le> fl (1000000 * (q - of_int \<lfloor>q\<rfloor>))"
      using assms(2) fp(1) True by (intro fl_mono) auto
    then have "round_half_even (fl (1000000 * (p - of_int \<lfloor>q\<rfloor>)))
                 \<le> round_half_even (fl (1000000 * (q - of_int \<lfloor>q\<rfloor>)))"
      by (rule round_half_even_mono)
    then show ?thesis
      by (simp add: float_seconds_to_us_nonneg assms(1) q True)
  next
    case False
    then have "\<lfloor>p\<rfloor> + 1 \<le> \<lfloor>q\<rfloor>"
      using floor_mono [OF assms(2)] by linarith
    then have "\<lfloor>p\<rfloor> * 1000000 + 1000000 \<le> \<lfloor>q\<rfloor> * 1000000"
      by simp
    then show ?thesis
      using frac_us_bounds(2) [OF fp] frac_us_bounds(1) [OF fq]
      by (simp add: float_seconds_to_us_nonneg assms(1) q)
  qed
qed

lemma float_seconds_to_us_err:
  assumes "0 \<le> p"
  shows "\<bar>of_int (float_seconds_to_us p) - 1000000 * p\<bar> \<le> 1 / 2 + pow2 (- 34)"
proof -
  define f where "f = p - of_int \<lfloor>p\<rfloor>"
  define d where "d = fl (1000000 * f)"
  have f: "0 \<le> f" "f < 1"
    by (simp_all add: f_def) linarith
  have e1: "\<bar>d - 1000000 * f\<bar> \<le> pow2 (- 34)"
  proof (cases "f = 0")
    case True
    then show ?thesis by (simp add: d_def)
  next
    case False
    have "\<bar>1000000 * f\<bar> < pow2 20"
      using f by (simp add: pow2_def)
    then have "ilog2 (1000000 * f) < 20"
      by (rule ilog2_less) simp
    then have "ulp_exp (1000000 * f) \<le> - 33"
      by (simp add: ulp_exp_def)
    then have "pow2 (ulp_exp (1000000 * f)) \<le> pow2 (- 33)"
      by (rule pow2_mono)
    moreover have "pow2 (- 33) / 2 = pow2 (- 34)"
      by (simp add: pow2_def)
    ultimately have "pow2 (ulp_exp (1000000 * f)) / 2 \<le> pow2 (- 34)"
      by linarith
    then show ?thesis
      using fl_abs_err [of "1000000 * f"] by (simp add: d_def)
  qed
  have e2: "\<bar>of_int (round_half_even d) - d\<bar> \<le> 1 / 2"
    by (rule round_half_even_err)
  have "of_int (float_seconds_to_us p) - 1000000 * p
          = (of_int (round_half_even d) - d) + (d - 1000000 * f)"
    by (simp add: float_seconds_to_us_nonneg [OF assms] d_def f_def algebra_simps)
  then show ?thesis
    using e1 e2 by linarith
qed

lemma eps_value: "eps = 1 / 9007199254740992"
  by (simp add: eps_def pow2_def)

lemma fl_between:
  assumes "pow2 (- 1022) \<le> x"
  shows "x * (1 - eps) \<le> fl x" and "fl x \<le> x * (1 + eps)"
proof -
  have "0 < x"
    using assms pow2_pos [of "- 1022"] by linarith
  then have "\<bar>fl x - x\<bar> \<le> x * eps"
    using fl_rel_err [of x] assms by (simp add: eps_def)
  then show "x * (1 - eps) \<le> fl x" and "fl x \<le> x * (1 + eps)"
    by (simp_all add: algebra_simps abs_le_iff)
qed

lemma fl_int_between:
  assumes "0 \<le> i"
  shows "of_int i * (1 - eps) \<le> fl (of_int i)" and "fl (of_int i) \<le> of_int i * (1 + eps)"
proof -
  consider "i = 0" | "1 \<le> i" using assms by linarith
  then have "of_int i * (1 - eps) \<le> fl (of_int i) \<and> fl (of_int i) \<le> of_int i * (1 + eps)"
  proof cases
    case 1
    then show ?thesis by simp
  next
    case 2
    then have "(1::rat) \<le> of_int i" by simp
    moreover have "pow2 (- 1022) \<le> 1"
      using pow2_mono [of "- 1022" 0] by (simp add: pow2_def [of 0])
    ultimately have "pow2 (- 1022) \<le> (of_int i :: rat)" by linarith
    then show ?thesis
      using fl_between [of "of_int i"] by simp
  qed
  then show "of_int i * (1 - eps) \<le> fl (of_int i)" and "fl (of_int i) \<le> of_int i * (1 + eps)"
    by simp_all
qed

lemma span_float_bounds: "57599 \<le> span_float" "span_float < 57600"
  by (simp_all add: span_float_def)

lemma eps_ratio: "1 - 5 * eps \<le> (1 - eps) ^ 3 / (1 + eps)" "(1 + eps) ^ 3 / (1 - eps) \<le> 1 + 5 * eps"
  by (simp_all add: eps_value power3_eq_cube)

lemma pow2_minus_1022: "pow2 (- 1022) = 2 / pow2 1023"
  using pow2_diff [of 1 1023] by (simp add: pow2_def [of 1])

lemma small_below_pow2_1024: "x \<le> 131072 \<Longrightarrow> x < pow2 1024"
proof -
  assume "x \<le> 131072"
  moreover have "pow2 17 = 131072" by (simp add: pow2_def)
  moreover have "pow2 17 < pow2 1024" by (rule pow2_strict_mono) simp
  ultimately show ?thesis by linarith
qed

lemma steps_product_bounds:
  fixes m i :: int
  assumes m1: "1 \<le> m" and mb: "of_int m \<le> pow2 1023" and i0: "0 \<le> i" and im: "i \<le> m"
  defines "M \<equiv> fl (of_int m)"
    and "steps \<equiv> fl (span_float / fl (of_int m))"
    and "I \<equiv> fl (of_int i)"
  defines "p \<equiv> fl (steps * I)"
    and "x \<equiv> span_float * of_int i / of_int m"
  shows "1 \<le> M" and "M \<le> pow2 1023" and "0 \<le> steps" and "steps \<le> 57600 * (1 + eps)"
    and "0 \<le> I" and "I \<le> M"
    and "x * (1 - 5 * eps) \<le> p" and "p \<le> x * (1 + 5 * eps)"
proof -
  let ?a = "1 - eps" and ?b = "1 + eps"
  have a: "0 < ?a" "?a \<le> 1" and b: "1 \<le> ?b" "0 < ?b"
    by (simp_all add: eps_value)
  have mr: "(1::rat) \<le> of_int m" "(0::rat) < of_int m"
    using m1 by simp_all
  have ir: "(0::rat) \<le> of_int i" "(of_int i :: rat) \<le> of_int m"
    using i0 im by simp_all
  show M1: "1 \<le> M"
    using fl_mono [of 1 "of_int m"] mr by (simp add: M_def)
  show Mb: "M \<le> pow2 1023"
    unfolding M_def using mr mb by (intro fl_le_pow2) auto
  have Mbt: "of_int m * ?a \<le> M" "M \<le> of_int m * ?b"
    using fl_int_between [of m] m1 by (simp_all add: M_def)
  have Mpos: "0 < M" using M1 by linarith
  define r where "r = span_float / M"
  have rpos: "0 < r"
    using Mpos span_float_bounds by (simp add: r_def)
  have r_lo: "span_float / (of_int m * ?b) \<le> r"
    unfolding r_def using Mbt(2) Mpos span_float_bounds mr b
    by (intro divide_left_mono) auto
  have r_hi: "r \<le> span_float / (of_int m * ?a)"
    unfolding r_def using Mbt(1) Mpos span_float_bounds mr a
    by (intro divide_left_mono) auto
  have r_le: "r \<le> span_float"
    unfolding r_def using M1 span_float_bounds Mpos by (simp add: pos_divide_le_eq)
  have r_big: "57599 / pow2 1023 \<le> r"
  proof -
    have "span_float / pow2 1023 \<le> span_float / M"
      using Mb Mpos span_float_bounds by (intro divide_left_mono) auto
    moreover have "57599 / pow2 1023 \<le> span_float / pow2 1023"
      using span_float_bounds by (simp add: divide_right_mono)
    ultimately show ?thesis by (simp add: r_def)
  qed
  have r_norm: "pow2 (- 1022) \<le> r"
  proof -
    have "(2::rat) / pow2 1023 \<le> 57599 / pow2 1023"
      by (simp add: divide_right_mono)
    then show ?thesis using r_big by (simp add: pow2_minus_1022)
  qed
  have st: "r * ?a \<le> steps" "steps \<le> r * ?b"
    using fl_between [OF r_norm] by (simp_all add: steps_def r_def M_def)
  show s0: "0 \<le> steps"
    using st(1) rpos a by (meson less_imp_le mult_nonneg_nonneg order_trans)
  show "steps \<le> 57600 * (1 + eps)"
  proof -
    have "r * ?b \<le> 57600 * ?b"
      using r_le span_float_bounds b by (intro mult_right_mono) auto
    then show ?thesis using st(2) by linarith
  qed
  have Ibt: "of_int i * ?a \<le> I" "I \<le> of_int i * ?b"
    using fl_int_between [of i] i0 by (simp_all add: I_def)
  show I0: "0 \<le> I"
    using ir by (simp add: I_def fl_nonneg)
  show "I \<le> M"
    unfolding I_def M_def using ir by (intro fl_mono) auto
  have x0: "0 \<le> x"
    using ir mr span_float_bounds by (simp add: x_def)
  have both: "x * (?a ^ 3 / ?b) \<le> p \<and> p \<le> x * (?b ^ 3 / ?a)"
  proof (cases "i = 0")
    case True
    then show ?thesis by (simp add: p_def I_def x_def)
  next
    case False
    then have i1: "(1::rat) \<le> of_int i" using i0 by simp
    have I1: "1 \<le> I"
      using fl_mono [of 1 "of_int i"] i1 by (simp add: I_def)
    have t_lo: "(r * ?a) * (of_int i * ?a) \<le> steps * I"
      using st(1) Ibt(1) s0 ir a by (intro mult_mono) auto
    have t_hi: "steps * I \<le> (r * ?b) * (of_int i * ?b)"
      using st(2) Ibt(2) rpos b I0 by (intro mult_mono) auto
    have t_norm: "pow2 (- 1022) \<le> steps * I"
    proof -
      have "(2::rat) \<le> 57599 * ?a" by (simp add: eps_value)
      then have "2 / pow2 1023 \<le> 57599 * ?a / pow2 1023"
        by (simp add: divide_right_mono)
      also have "\<dots> = 57599 / pow2 1023 * ?a" by simp
      also have "\<dots> \<le> r * ?a"
        using r_big a by (intro mult_right_mono) auto
      also have "\<dots> \<le> steps" using st(1) .
      also have "\<dots> \<le> steps * I"
        using I1 s0 by (simp add: mult_le_cancel_left1)
      finally show ?thesis by (simp add: pow2_minus_1022)
    qed
    have pt: "steps * I * ?a \<le> p" "p \<le> steps * I * ?b"
      using fl_between [OF t_norm] by (simp_all add: p_def)
    have lo: "x * (?a ^ 3 / ?b) \<le> p"
    proof -
      have "x * (?a ^ 3 / ?b) = span_float / (of_int m * ?b) * ?a * (of_int i * ?a) * ?a"
        by (simp add: x_def power3_eq_cube)
      also have "\<dots> \<le> r * ?a * (of_int i * ?a) * ?a"
        using r_lo ir a by (intro mult_right_mono) auto
      also have "\<dots> \<le> steps * I * ?a"
        using t_lo a by (intro mult_right_mono) auto
      also have "\<dots> \<le> p" using pt(1) .
      finally show ?thesis .
    qed
    have hi: "p \<le> x * (?b ^ 3 / ?a)"
    proof -
      have "p \<le> steps * I * ?b" using pt(2) .
      also have "\<dots> \<le> r * ?b * (of_int i * ?b) * ?b"
        using t_hi b by (intro mult_right_mono) auto
      also have "\<dots> \<le> span_float / (of_int m * ?a) * ?b * (of_int i * ?b) * ?b"
        using r_hi ir b by (intro mult_right_mono) auto
      also have "\<dots> = x * (?b ^ 3 / ?a)"
        by (simp add: x_def power3_eq_cube)
      finally show ?thesis .
    qed
    show ?thesis using lo hi by simp
  qed
  show "x * (1 - 5 * eps) \<le> p"
  proof -
    have "x * (1 - 5 * eps) \<le> x * (?a ^ 3 / ?b)"
      using eps_ratio(1) x0 by (intro mult_left_mono) auto
    then show ?thesis using both by linarith
  qed
  show "p \<le> x * (1 + 5 * eps)"
  proof -
    have "x * (?b ^ 3 / ?a) \<le> x * (1 + 5 * eps)"
      using eps_ratio(2) x0 by (intro mult_left_mono) auto
    then show ?thesis using both by linarith
  qed
qed

lemma offset_us_eq:
  "offset_us m i = float_seconds_to_us (fl (fl (span_float / fl (of_int m)) * fl (of_int i)))"
  by (simp add: offset_us_def)

lemma window_edge_values:
  "float_seconds_to_us (575999999989 / 10000000) = 57599999999"
  "float_seconds_to_us (575999999991 / 10000000) = 57599999999"
  "float_seconds_to_us 0 = 0"
  by code_simp+

lemma span_float_near:
  "575999999989 / 10000000 \<le> span_float * (1 - 5 * eps)"
  "span_float * (1 + 5 * eps) \<le> 575999999991 / 10000000"
  "\<bar>span_float - 57599999999 / 1000000\<bar> \<le> 1 / 100000000000"
  by (simp_all add: span_float_def eps_value)

lemma offsets:
  fixes m :: int
  assumes m1: "1 \<le> m" and mb: "of_int m \<le> pow2 1023"
  shows "ilog2 (fl (of_int m)) < 1024" and "fl (of_int m) \<noteq> 0"
    and "ilog2 (fl (span_float / fl (of_int m))) < 1024"
    and "\<And>i. 0 \<le> i \<Longrightarrow> i \<le> m \<Longrightarrow> ilog2 (fl (of_int i)) < 1024"
    and "\<And>i. 0 \<le> i \<Longrightarrow> i \<le> m \<Longrightarrow>
           ilog2 (fl (fl (span_float / fl (of_int m)) * fl (of_int i))) < 1024"
    and "offset_us m 0 = 0" and "offset_us m m = 57599999999"
    and "\<And>i j. 0 \<le> i \<Longrightarrow> i \<le> j \<Longrightarrow> j \<le> m \<Longrightarrow> offset_us m i \<le> offset_us m j"
    and "\<And>i. 0 \<le> i \<Longrightarrow> i \<le> m \<Longrightarrow>
           \<bar>(of_int (offset_us m i) :: rat) - 57599999999 * of_int i / of_int m\<bar>
             \<le> 1 / 2 + 1 / 20000"
proof -
  let ?steps = "fl (span_float / fl (of_int m))"
  let ?p = "\<lambda>i. fl (?steps * fl (of_int i))"
  note B = steps_product_bounds [OF m1 mb]
  have mm: "0 \<le> m" "m \<le> m" using m1 by simp_all
  have top: "pow2 1023 < pow2 1024"
    by (rule pow2_strict_mono) simp
  show "ilog2 (fl (of_int m)) < 1024"
    using B(1,2) [OF mm] top by (intro finite_if_small) auto
  show "fl (of_int m) \<noteq> 0"
    using B(1) [OF mm] by auto
  show "ilog2 ?steps < 1024"
  proof (rule finite_if_small)
    show "0 \<le> ?steps" using B(3) [OF mm] .
    have "?steps \<le> 57600 * (1 + eps)" using B(4) [OF mm] .
    also have "\<dots> \<le> 131072" by (simp add: eps_value)
    finally show "?steps < pow2 1024" by (rule small_below_pow2_1024)
  qed
  show "ilog2 (fl (of_int i)) < 1024" if "0 \<le> i" "i \<le> m" for i
    using B(5,6) [OF that] B(2) [OF that] top by (intro finite_if_small) auto
  have x_le: "span_float * of_int i / of_int m \<le> span_float"
    and x_ge: "0 \<le> span_float * of_int i / of_int m" if "0 \<le> i" "i \<le> m" for i
  proof -
    have "(of_int i :: rat) / of_int m \<le> 1" "(0::rat) \<le> of_int i / of_int m"
      using that m1 by (simp_all add: divide_le_eq_1)
    then show "span_float * of_int i / of_int m \<le> span_float"
      using span_float_bounds mult_left_mono [of "of_int i / of_int m" 1 span_float]
      by simp
    show "0 \<le> span_float * of_int i / of_int m"
      using span_float_bounds that m1 by simp
  qed
  have p0: "0 \<le> ?p i" if "0 \<le> i" "i \<le> m" for i
    using B(3,5) [OF that] by (intro fl_nonneg) auto
  have p_hi: "?p i \<le> span_float * (1 + 5 * eps)" if "0 \<le> i" "i \<le> m" for i
  proof -
    have "?p i \<le> span_float * of_int i / of_int m * (1 + 5 * eps)"
      using B(8) [OF that] .
    also have "\<dots> \<le> span_float * (1 + 5 * eps)"
      using x_le [OF that] by (intro mult_right_mono) (auto simp: eps_value)
    finally show ?thesis .
  qed
  show "ilog2 (?p i) < 1024" if "0 \<le> i" "i \<le> m" for i
  proof (rule finite_if_small)
    show "0 \<le> ?p i" using p0 [OF that] .
    have "?p i \<le> span_float * (1 + 5 * eps)" using p_hi [OF that] .
    also have "\<dots> \<le> 131072" using span_float_near(2) by linarith
    finally show "?p i < pow2 1024" by (rule small_below_pow2_1024)
  qed
  show "offset_us m 0 = 0"
    by (simp add: offset_us_eq window_edge_values)
  show "offset_us m m = 57599999999"
  proof -
    have x: "span_float * of_int m / of_int m = span_float"
      using m1 by simp
    have lo: "575999999989 / 10000000 \<le> ?p m"
      using B(7) [OF mm] span_float_near(1) by (simp add: x)
    have hi: "?p m \<le> 575999999991 / 10000000"
      using B(8) [OF mm] span_float_near(2) by (simp add: x)
    have "float_seconds_to_us (575999999989 / 10000000) \<le> float_seconds_to_us (?p m)"
      using lo by (intro float_seconds_to_us_mono) auto
    moreover have "float_seconds_to_us (?p m) \<le> float_seconds_to_us (575999999991 / 10000000)"
      using hi p0 [OF mm] by (intro float_seconds_to_us_mono) auto
    ultimately show ?thesis
      by (simp add: offset_us_eq window_edge_values)
  qed
  show "offset_us m i \<le> offset_us m j" if "0 \<le> i" "i \<le> j" "j \<le> m" for i j
  proof -
    have i: "0 \<le> i" "i \<le> m" and j: "0 \<le> j" "j \<le> m" using that by auto
    have "fl (of_int i) \<le> fl (of_int j)"
      using that by (intro fl_mono) auto
    then have "?steps * fl (of_int i) \<le> ?steps * fl (of_int j)"
      using B(3) [OF mm] by (intro mult_left_mono) auto
    then have "?p i \<le> ?p j"
      using B(3,5) [OF i] by (intro fl_mono) auto
    then show ?thesis
      unfolding offset_us_eq using p0 [OF i] by (intro float_seconds_to_us_mono) auto
  qed
  show "\<bar>(of_int (offset_us m i) :: rat) - 57599999999 * of_int i / of_int m\<bar>
          \<le> 1 / 2 + 1 / 20000"
    if "0 \<le> i" "i \<le> m" for i
  proof -
    define x where "x = span_float * of_int i / of_int m"
    define q where "q = (of_int i :: rat) / of_int m"
    have q: "0 \<le> q" "q \<le> 1"
      using that m1 by (simp_all add: q_def divide_le_eq_1)
    have xq: "x = span_float * q" by (simp add: x_def q_def)
    have x: "0 \<le> x" "x \<le> span_float"
      using x_ge [OF that] x_le [OF that] by (simp_all add: x_def)
    have e1: "\<bar>of_int (offset_us m i) - 1000000 * ?p i\<bar> \<le> 1 / 2 + pow2 (- 34)"
      unfolding offset_us_eq using p0 [OF that] by (rule float_seconds_to_us_err)
    have "x * (1 - 5 * eps) \<le> ?p i" "?p i \<le> x * (1 + 5 * eps)"
      using B(7,8) [OF that] by (simp_all add: x_def)
    then have "\<bar>?p i - x\<bar> \<le> 5 * eps * x"
      by (simp add: abs_le_iff algebra_simps)
    also have "\<dots> \<le> 5 * eps * 57600"
      using x span_float_bounds by (intro mult_left_mono) (auto simp: eps_value)
    finally have e2: "\<bar>?p i - x\<bar> \<le> 5 * eps * 57600" .
    have "x - 57599999999 / 1000000 * q = (span_float - 57599999999 / 1000000) * q"
      by (simp add: xq left_diff_distrib)
    then have "\<bar>x - 57599999999 / 1000000 * q\<bar> = \<bar>(span_float - 57599999999 / 1000000) * q\<bar>"
      by simp
    also have "\<dots> = \<bar>span_float - 57599999999 / 1000000\<bar> * q"
      using q by (simp add: abs_mult)
    also have "\<dots> \<le> 1 / 100000000000 * 1"
      using span_float_near(3) q by (intro mult_mono) auto
    finally have e3: "\<bar>x - 57599999999 / 1000000 * q\<bar> \<le> 1 / 100000000000" by simp
    define A where "A = of_int (offset_us m i) - 1000000 * ?p i"
    define D where "D = ?p i - x"
    define C where "C = x - 57599999999 / 1000000 * q"
    define c1 where "c1 = pow2 (- 34)"
    have eq: "of_int (offset_us m i) - 57599999999 * of_int i / of_int m
                = A + 1000000 * D + 1000000 * C"
      by (simp add: A_def D_def C_def q_def algebra_simps)
    have num: "c1 + 1000000 * (5 * eps * 57600) + 1000000 * (1 / 100000000000) \<le> 1 / 20000"
      by (simp add: c1_def eps_value pow2_def)
    have aA: "\<bar>A\<bar> \<le> 1 / 2 + c1"
      using e1 by (simp only: A_def c1_def)
    have aD: "\<bar>D\<bar> \<le> 5 * eps * 57600"
      using e2 by (simp only: D_def)
    have aC: "\<bar>C\<bar> \<le> 1 / 100000000000"
      using e3 by (simp only: C_def)
    have "A \<le> 1 / 2 + c1" "- A \<le> 1 / 2 + c1"
      "D \<le> 5 * eps * 57600" "- D \<le> 5 * eps * 57600"
      "C \<le> 1 / 100000000000" "- C \<le> 1 / 100000000000"
      using aA aD aC by (auto dest: abs_le_D1 abs_le_D2)
    then have "A + 1000000 * D + 1000000 * C \<le> 1 / 2 + 1 / 20000"
      "- (A + 1000000 * D + 1000000 * C) \<le> 1 / 2 + 1 / 20000"
      using num by linarith+
    then show ?thesis
      unfolding eq by (simp only: abs_le_iff)
  qed
qed

subsection \<open>The spread of the timestamps over the window\<close>

lemma time_of_day_stamp: "time_of_day_us (stamp_at b u) = 28800000000 + u"
proof -
  have 1: "u mod 3600000000 = 60000000 * (u div 60000000 mod 60) + u mod 60000000"
    using zmod_zmult2_eq [of 60 u 60000000] by simp
  have 2: "u mod 60000000 = 1000000 * (u div 1000000 mod 60) + u mod 1000000"
    using zmod_zmult2_eq [of 60 u 1000000] by simp
  have 3: "u = 3600000000 * (u div 3600000000) + u mod 3600000000"
    by simp
  show ?thesis
    using 1 2 3 by (simp add: time_of_day_us_def stamp_at_def)
qed

lemma stamp_at_edges:
  "stamp_at b 0 = b\<lparr>hour := 8, minute := 0, second := 0, microsecond := 0\<rparr>"
  "stamp_at b 57599999999 = b\<lparr>hour := 23, minute := 59, second := 59, microsecond := 999999\<rparr>"
  by (simp_all add: stamp_at_def)

lemma stamp_at_date:
  "year (stamp_at b u) = year b" "month (stamp_at b u) = month b" "day (stamp_at b u) = day b"
  by (simp_all add: stamp_at_def)

lemma commits_for_day_offsets:
  fixes m :: int
  assumes v: "valid_date b" and m1: "1 \<le> m" and mb: "of_int m \<le> pow2 1023"
  shows "commits_for_day b (m + 1)
           = Inr (map (\<lambda>i. stamp_at b (offset_us m (int i))) [0..<Suc (nat m)])"
proof (rule commits_for_day_many [OF v m1])
  note O = offsets [OF m1 mb]
  show "ilog2 (fl (of_int m)) < 1024" "fl (of_int m) \<noteq> 0"
    "ilog2 (fl (span_float / fl (of_int m))) < 1024"
    using O(1-3) .
  fix i :: int
  assume i: "0 \<le> i" "i \<le> m"
  have "0 \<le> offset_us m i"
    using O(8) [of 0 i] O(6) i by simp
  moreover have "offset_us m i \<le> 57599999999"
    using O(8) [of i m] O(7) i by simp
  ultimately show "ilog2 (fl (of_int i)) < 1024
      \<and> ilog2 (fl (fl (span_float / fl (of_int m)) * fl (of_int i))) < 1024
      \<and> 0 \<le> offset_us m i \<and> offset_us m i \<le> 57599999999"
    using O(4) [OF i] O(5) [OF i] by simp
qed

lemma gap_bound:
  fixes m :: int and k :: nat
  assumes m1: "1 \<le> m" and mb: "of_int m \<le> pow2 1023" and k: "int k + 1 \<le> m"
  shows "\<bar>(of_int (offset_us m (int k + 1) - offset_us m (int k)) :: rat)
            - 57599999999 / of_int m\<bar> \<le> 10001 / 10000"
proof -
  note O = offsets(9) [OF m1 mb]
  define A :: rat where "A = of_int (offset_us m (int k + 1)) - 57599999999 * of_int (int k + 1) / of_int m"
  define B :: rat where "B = of_int (offset_us m (int k)) - 57599999999 * of_int (int k) / of_int m"
  have a: "\<bar>A\<bar> \<le> 1 / 2 + 1 / 20000"
    unfolding A_def using k by (intro O) auto
  have b: "\<bar>B\<bar> \<le> 1 / 2 + 1 / 20000"
    unfolding B_def using k by (intro O) auto
  have "(57599999999 * of_int (int k + 1) / of_int m :: rat)
          = 57599999999 * of_int (int k) / of_int m + 57599999999 / of_int m"
    by (simp add: distrib_left add_divide_distrib)
  then have eq: "(of_int (offset_us m (int k + 1) - offset_us m (int k)) :: rat)
                   - 57599999999 / of_int m = A - B"
    by (simp add: A_def B_def)
  have "A \<le> 1 / 2 + 1 / 20000" "- A \<le> 1 / 2 + 1 / 20000"
    "B \<le> 1 / 2 + 1 / 20000" "- B \<le> 1 / 2 + 1 / 20000"
    using a b by (auto dest: abs_le_D1 abs_le_D2)
  then have "A - B \<le> 10001 / 10000" "- (A - B) \<le> 10001 / 10000"
    by linarith+
  then show ?thesis
    unfolding eq by (simp only: abs_le_iff)
qed

text \<open>
  Claim C1, in the form that holds. For every calendar day, \<open>commits_for_day\<close> returns the empty
  sequence for a count of 0 and the single timestamp 08:00:00.000000 of the day for a
  count of 1. For every count from 2 to \<open>2^1023\<close> it returns exactly \<open>count\<close> timestamps of
  that day, the first 08:00:00.000000 and the last 23:59:59.999999, never decreasing,
  and every gap between two neighbours is within 1.0001 microseconds of the window
  span (57599999999 microseconds) divided by \<open>count - 1\<close>.
\<close>

theorem commits_for_day_spread:
  assumes "valid_date b"
  shows "commits_for_day b 0 = Inr []
         \<and> commits_for_day b 1 = Inr [b\<lparr>hour := 8, minute := 0, second := 0, microsecond := 0\<rparr>]
         \<and> (2 \<le> count \<and> count \<le> 2 ^ 1023 \<longrightarrow>
              (\<exists>ts. commits_for_day b count = Inr ts
                 \<and> int (length ts) = count
                 \<and> (\<forall>t \<in> set ts. year t = year b \<and> month t = month b \<and> day t = day b)
                 \<and> hd ts = b\<lparr>hour := 8, minute := 0, second := 0, microsecond := 0\<rparr>
                 \<and> last ts = b\<lparr>hour := 23, minute := 59, second := 59, microsecond := 999999\<rparr>
                 \<and> sorted (map time_of_day_us ts)
                 \<and> (\<forall>k. Suc k < length ts \<longrightarrow>
                       \<bar>(of_int (time_of_day_us (ts ! Suc k) - time_of_day_us (ts ! k)) :: rat)
                          - 57599999999 / of_int (count - 1)\<bar> \<le> 10001 / 10000)))"
proof (intro conjI impI)
  show "commits_for_day b 0 = Inr []"
    by (simp add: commits_for_day_small)
  show "commits_for_day b 1 = Inr [b\<lparr>hour := 8, minute := 0, second := 0, microsecond := 0\<rparr>]"
    by (simp add: commits_for_day_small window_start_def)
next
  assume c: "2 \<le> count \<and> count \<le> 2 ^ 1023"
  define m where "m = count - 1"
  have m1: "1 \<le> m" and cm: "count = m + 1"
    using c by (simp_all add: m_def)
  have "m \<le> 2 ^ 1023" using c by (simp add: m_def)
  then have "(of_int m :: rat) \<le> of_int (2 ^ 1023)"
    by (simp only: of_int_le_iff)
  then have mb: "(of_int m :: rat) \<le> pow2 1023"
    by (simp add: pow2_def)
  note O = offsets [OF m1 mb]
  define n where "n = nat m"
  have n: "int n = m" using m1 by (simp add: n_def)
  define f where "f = (\<lambda>i. stamp_at b (offset_us m (int i)))"
  define ts where "ts = map f [0..<Suc n]"
  have res: "commits_for_day b count = Inr ts"
    using commits_for_day_offsets [OF assms m1 mb] by (simp add: cm ts_def f_def n_def)
  have len: "length ts = Suc n"
    by (simp add: ts_def)
  have nth: "ts ! k = f k" if "k \<le> n" for k
    using that by (simp add: ts_def nth_append del: upt_Suc)
  have tod: "time_of_day_us (f k) = 28800000000 + offset_us m (int k)" for k
    by (simp add: f_def time_of_day_stamp)
  have "int (length ts) = count"
    by (simp add: len n cm)
  moreover have "\<forall>t \<in> set ts. year t = year b \<and> month t = month b \<and> day t = day b"
    by (auto simp: ts_def f_def stamp_at_date simp del: upt_Suc)
  moreover have "hd ts = b\<lparr>hour := 8, minute := 0, second := 0, microsecond := 0\<rparr>"
  proof -
    have "ts \<noteq> []"
      using len by auto
    then have "hd ts = ts ! 0"
      by (rule hd_conv_nth)
    then show ?thesis
      using nth [of 0] O(6) by (simp add: f_def stamp_at_edges)
  qed
  moreover have "last ts = b\<lparr>hour := 23, minute := 59, second := 59, microsecond := 999999\<rparr>"
  proof -
    have "ts \<noteq> []"
      using len by auto
    then have "last ts = ts ! (length ts - 1)"
      by (rule last_conv_nth)
    then have "last ts = ts ! n"
      by (simp only: len diff_Suc_1)
    then show ?thesis
      using nth [of n] O(7) by (simp add: f_def stamp_at_edges n)
  qed
  moreover have "sorted (map time_of_day_us ts)"
  proof -
    have "map time_of_day_us ts ! i \<le> map time_of_day_us ts ! j"
      if "i \<le> j" "j < length (map time_of_day_us ts)" for i j
    proof -
      have j: "j \<le> n" and i: "i \<le> n" using that len by auto
      have "offset_us m (int i) \<le> offset_us m (int j)"
        using that j n by (intro O(8)) auto
      then show ?thesis
        using i j len by (simp add: nth tod)
    qed
    then show ?thesis
      by (simp only: sorted_iff_nth_mono) blast
  qed
  moreover have "\<forall>k. Suc k < length ts \<longrightarrow>
                       \<bar>(of_int (time_of_day_us (ts ! Suc k) - time_of_day_us (ts ! k)) :: rat)
                          - 57599999999 / of_int (count - 1)\<bar> \<le> 10001 / 10000"
  proof (intro allI impI)
    fix k
    assume "Suc k < length ts"
    then have k: "Suc k \<le> n" "k \<le> n" using len by auto
    then have km: "int k + 1 \<le> m" using n by linarith
    have "time_of_day_us (ts ! Suc k) - time_of_day_us (ts ! k)
            = offset_us m (int k + 1) - offset_us m (int k)"
      using k by (simp add: nth tod add.commute)
    then show "\<bar>(of_int (time_of_day_us (ts ! Suc k) - time_of_day_us (ts ! k)) :: rat)
                          - 57599999999 / of_int (count - 1)\<bar> \<le> 10001 / 10000"
      using gap_bound [OF m1 mb km] by (simp only: m_def [symmetric])
  qed
  ultimately show "\<exists>ts. commits_for_day b count = Inr ts
                 \<and> int (length ts) = count
                 \<and> (\<forall>t \<in> set ts. year t = year b \<and> month t = month b \<and> day t = day b)
                 \<and> hd ts = b\<lparr>hour := 8, minute := 0, second := 0, microsecond := 0\<rparr>
                 \<and> last ts = b\<lparr>hour := 23, minute := 59, second := 59, microsecond := 999999\<rparr>
                 \<and> sorted (map time_of_day_us ts)
                 \<and> (\<forall>k. Suc k < length ts \<longrightarrow>
                       \<bar>(of_int (time_of_day_us (ts ! Suc k) - time_of_day_us (ts ! k)) :: rat)
                          - 57599999999 / of_int (count - 1)\<bar> \<le> 10001 / 10000)"
    using res by blast
qed

theorem commits_for_day_spread_witness:
  "valid_date (at_time 2024 1 1 0 0 0 0)
   \<and> commits_for_day (at_time 2024 1 1 0 0 0 0) 0 = Inr []
   \<and> commits_for_day (at_time 2024 1 1 0 0 0 0) 1 = Inr [at_time 2024 1 1 8 0 0 0]
   \<and> (\<exists>ts. commits_for_day (at_time 2024 1 1 0 0 0 0) 3 = Inr ts \<and> length ts = 3
          \<and> hd ts = at_time 2024 1 1 8 0 0 0 \<and> last ts = at_time 2024 1 1 23 59 59 999999
          \<and> sorted (map time_of_day_us ts))"
proof -
  have v: "valid_date (at_time 2024 1 1 0 0 0 0)"
    using valid_demo_days(1) by (simp add: combine_midnight_def at_time_def)
  have c: "(2::int) \<le> 3 \<and> (3::int) \<le> 2 ^ 1023"
    by simp
  show ?thesis
    using commits_for_day_spread [OF v, of 3] v c
    by (auto simp: at_time_def)
qed

text \<open>
  The claim as it was stated fails for a count of 3: the two gaps are 28799999999 and
  28800000000 microseconds, neither of them half the span, which is no whole number of
  microseconds. It fails as well for a count so large that \<open>count - 1\<close> is no float:
  the division raises OverflowError.
\<close>

theorem commits_for_day_gaps_counterexample:
  "commits_for_day (at_time 2024 1 1 0 0 0 0) 3
     = Inr [at_time 2024 1 1 8 0 0 0, at_time 2024 1 1 15 59 59 999999,
            at_time 2024 1 1 23 59 59 999999]
   \<and> time_of_day_us (at_time 2024 1 1 15 59 59 999999) - time_of_day_us (at_time 2024 1 1 8 0 0 0)
       = 28799999999
   \<and> time_of_day_us (at_time 2024 1 1 23 59 59 999999)
         - time_of_day_us (at_time 2024 1 1 15 59 59 999999)
       = 28800000000
   \<and> (28799999999 :: rat) \<noteq> 57599999999 / of_int (3 - 1)
   \<and> commits_for_day (at_time 2024 1 1 0 0 0 0) (2 ^ 1024 + 1) = Inl OverflowError"
proof -
  have day: "commits_for_day (at_time 2024 1 1 0 0 0 0) 3
     = Inr [at_time 2024 1 1 8 0 0 0, at_time 2024 1 1 15 59 59 999999,
            at_time 2024 1 1 23 59 59 999999]"
    using demo_day1 by (simp add: combine_midnight_def at_time_def)
  have big: "(of_int (2 ^ 1024) :: rat) = pow2 1024"
    by (simp add: pow2_def)
  have "fround (of_int (2 ^ 1024)) = FInf False"
    unfolding big using pow2_pos [of 1024]
    by (simp add: fround_def fl_pow2 ilog2_pow2 Let_def not_less less_imp_le)
  then have "float_of_int (2 ^ 1024) = Inl OverflowError"
    by (simp add: float_of_int_def)
  then have "float_div_int (FFin span_float) (2 ^ 1024) = Inl OverflowError"
    by (simp add: float_div_int_def bind_res_def)
  moreover have "\<not> (2 ^ 1024 + 1 \<le> (1::int))" "(2 ^ 1024 + 1 - 1 :: int) = 2 ^ 1024"
    by simp_all
  ultimately have over: "commits_for_day (at_time 2024 1 1 0 0 0 0) (2 ^ 1024 + 1) = Inl OverflowError"
    by (simp only: commits_for_day_def Let_def window_span span_seconds_value bind_res_def
        span_float_def sum.case if_False)
  show ?thesis
    using day over by (simp add: time_of_day_us_def at_time_def)
qed

end
